theory Spec2Isabelle
  imports Complex_Main
begin

section \<open>Filename Normalizer (cleanSRT.py)\<close>

text \<open>
  The script works on the current directory through \<open>os.listdir\<close>, \<open>os.path.isfile\<close>,
  \<open>os.path.getsize\<close>, \<open>os.remove\<close> and \<open>os.rename\<close>. The directory is a map from
  file names to file contents (all entries are regular files); the size of a file is the
  length of its content. What the script prints is kept as a list of lines.
  File names are strings of characters with code points below 256.
\<close>

datatype py_error =
    FileNotFoundError string
  | NotADirectoryError string
  | ValueError
  | OSError

record world =
  files :: "string \<rightharpoonup> string"
  stdout :: "string list"

subsection \<open>String primitives\<close>

definition lower_char :: "char \<Rightarrow> char" where
  \<comment> \<open>\<open>str.lower\<close> on one character below 256: A-Z, and the Latin-1 capitals
      0xC0-0xDE except the multiplication sign 0xD7, move up by 32.\<close>
  "lower_char c =
     (let n = (of_char c :: nat)
      in if (65 \<le> n \<and> n \<le> 90) \<or> (192 \<le> n \<and> n \<le> 222 \<and> n \<noteq> 215)
         then char_of (n + 32) else c)"

definition lower :: "string \<Rightarrow> string" where
  "lower s = map lower_char s"

definition str_count :: "string \<Rightarrow> char \<Rightarrow> nat" where
  \<comment> \<open>\<open>s.count(c)\<close> for a one-character pattern\<close>
  "str_count s c = length (filter (\<lambda>x. x = c) s)"

fun str_index :: "string \<Rightarrow> char \<Rightarrow> py_error + nat" where
  \<comment> \<open>\<open>s.index(c)\<close>: position of the first occurrence, ValueError when there is none\<close>
  "str_index [] c = Inl ValueError"
| "str_index (x # xs) c =
     (if x = c then Inr 0
      else (case str_index xs c of Inl e \<Rightarrow> Inl e | Inr i \<Rightarrow> Inr (Suc i)))"

definition last4 :: "string \<Rightarrow> string" where
  \<comment> \<open>\<open>s[-4:]\<close>: the last four characters, the whole string when it is shorter\<close>
  "last4 s = drop (length s - 4) s"

definition slice2 :: "string \<Rightarrow> nat \<Rightarrow> string" where
  \<comment> \<open>\<open>s[iu:iu+2]\<close>\<close>
  "slice2 s iu = take 2 (drop iu s)"

subsection \<open>Operating-system primitives\<close>

definition isfile :: "world \<Rightarrow> string \<Rightarrow> bool" where
  "isfile w p = (files w p \<noteq> None)"

definition getsize :: "world \<Rightarrow> string \<Rightarrow> py_error + nat" where
  "getsize w p = (case files w p of None \<Rightarrow> Inl (FileNotFoundError p) | Some c \<Rightarrow> Inr (length c))"

definition os_remove :: "string \<Rightarrow> world \<Rightarrow> py_error + world" where
  "os_remove p w =
     (case files w p of None \<Rightarrow> Inl (FileNotFoundError p)
      | Some c \<Rightarrow> Inr (w\<lparr>files := (files w)(p := None)\<rparr>))"

definition os_rename :: "string \<Rightarrow> string \<Rightarrow> world \<Rightarrow> py_error + world" where
  "os_rename src dst w =
     (case files w src of None \<Rightarrow> Inl (FileNotFoundError src)
      | Some c \<Rightarrow> Inr (w\<lparr>files := ((files w)(src := None))(dst \<mapsto> c)\<rparr>))"

subsection \<open>The script\<close>

definition matches :: "string \<Rightarrow> bool" where
  \<comment> \<open>\<open>filename.count("_") > 0 and filename[-4:] == ".srt"\<close>\<close>
  "matches filename = (str_count filename CHR ''_'' > 0 \<and> last4 filename = ''.srt'')"

definition target_name :: "string \<Rightarrow> py_error + string" where
  \<comment> \<open>\<open>iu = filename.index("_")+1; f2 = (filename[iu:iu+2]+".srt").lower()\<close>\<close>
  "target_name filename =
     (case str_index filename CHR ''_'' of
        Inl e \<Rightarrow> Inl e
      | Inr i \<Rightarrow> (let iu = i + 1 in Inr (lower (slice2 filename iu @ ''.srt''))))"

definition process_file :: "string \<Rightarrow> world \<Rightarrow> py_error + world" where
  \<comment> \<open>the body of the loop, for one listed name\<close>
  "process_file filename w =
     (if matches filename then
        (let w1 = w\<lparr>stdout := stdout w @ [filename]\<rparr>
         in case target_name filename of
              Inl e \<Rightarrow> Inl e
            | Inr f2 \<Rightarrow>
                if \<not> isfile w1 f2 then os_rename filename f2 w1
                else (case getsize w1 f2 of
                        Inl e \<Rightarrow> Inl e
                      | Inr s2 \<Rightarrow>
                          (case getsize w1 filename of
                             Inl e \<Rightarrow> Inl e
                           | Inr s1 \<Rightarrow>
                               if s2 > s1 then
                                 (case os_remove f2 w1 of
                                    Inl e \<Rightarrow> Inl e
                                  | Inr w2 \<Rightarrow> os_rename filename f2 w2)
                               else os_remove filename w1)))
      else Inr w)"

fun cleanSRT :: "string list \<Rightarrow> world \<Rightarrow> py_error + world" where
  \<comment> \<open>the loop over the names \<open>os.listdir()\<close> returned when the script started\<close>
  "cleanSRT [] w = Inr w"
| "cleanSRT (filename # rest) w =
     (case process_file filename w of Inl e \<Rightarrow> Inl e | Inr w' \<Rightarrow> cleanSRT rest w')"

definition file_at :: "py_error + world \<Rightarrow> string \<Rightarrow> string option" where
  \<comment> \<open>the content found under a name after a run that did not raise\<close>
  "file_at r p = (case r of Inl e \<Rightarrow> None | Inr w \<Rightarrow> files w p)"

definition size_at :: "py_error + world \<Rightarrow> string \<Rightarrow> nat option" where
  "size_at r p = map_option length (file_at r p)"

section \<open>Grid Paginator (generate_mtg_pdf.py)\<close>

text \<open>
  Python floats are read as real numbers with exact arithmetic; Python ints are \<open>int\<close>,
  list positions and counters are \<open>nat\<close>. The imaging and document libraries are outside
  the repository: whether one of their calls raises is given by the environment, and the
  canvas is the list of pages finished so far together with the drawing operations of the
  page being composed; the document exists only once \<open>c.save()\<close> has written it.
\<close>

subsection \<open>Configuration\<close>

definition CARD_WIDTH_MM :: int where "CARD_WIDTH_MM = 63"
definition CARD_HEIGHT_MM :: int where "CARD_HEIGHT_MM = 88"

definition MARGIN_TOP :: int where "MARGIN_TOP = 5"
definition MARGIN_BOTTOM :: int where "MARGIN_BOTTOM = 5"
definition MARGIN_LEFT :: int where "MARGIN_LEFT = 5"
definition MARGIN_RIGHT :: int where "MARGIN_RIGHT = 5"

definition CARD_SPACING_X :: int where "CARD_SPACING_X = 1"
definition CARD_SPACING_Y :: int where "CARD_SPACING_Y = 1"

definition ENABLE_CUT_MARKS :: bool where
  \<comment> \<open>the value the module assigns to the global when it is loaded\<close>
  "ENABLE_CUT_MARKS = False"

definition CUT_MARK_WIDTH :: real where "CUT_MARK_WIDTH = 0.5"

definition SUPPORTED_EXTENSIONS :: "string set" where
  "SUPPORTED_EXTENSIONS = {''.png'', ''.jpg'', ''.jpeg''}"

definition mm :: real where
  \<comment> \<open>\<open>reportlab.lib.units\<close>: \<open>inch = 72.0\<close>, \<open>cm = inch / 2.54\<close>, \<open>mm = cm * 0.1\<close>\<close>
  "mm = 72 / 2.54 * 0.1"

definition A4 :: "real \<times> real" where
  \<comment> \<open>\<open>reportlab.lib.pagesizes\<close>: \<open>A4 = (210*mm, 297*mm)\<close>\<close>
  "A4 = (210 * mm, 297 * mm)"

definition py_int :: "real \<Rightarrow> int" where
  \<comment> \<open>\<open>int(x)\<close> on a float: truncation towards zero\<close>
  "py_int x = (if 0 \<le> x then \<lfloor>x\<rfloor> else \<lceil>x\<rceil>)"

subsection \<open>Data\<close>

datatype 'p card_image = CardImage 'p
  \<comment> \<open>the image \<open>resize_image_to_card\<close> returns for a path: the picture at that path
      fitted to \<open>CARD_WIDTH_PX\<close> by \<open>CARD_HEIGHT_PX\<close> pixels\<close>

datatype 'p canvas_op =
    DrawImage nat "'p card_image" real real real real
      \<comment> \<open>\<open>c.drawImage("temp_card_k.png", x, y, width, height)\<close>, with the image saved there\<close>
  | SetStrokeColor
  | SetLineWidth real
  | Line real real real real

datatype 'p log_entry =
    LogFound nat string
  | LogImageError 'p
  | LogLayout int int
  | LogNoImages
  | LogPage nat
  | LogInsertError 'p
  | LogGenerated string
  | LogStats nat nat
  | LogStart
  | LogNoImagesFound
  | LogDone
  | LogFatal py_error

datatype log_level = INFO | WARNING | ERROR

fun level :: "'p log_entry \<Rightarrow> log_level" where
  "level (LogFound n d) = INFO"
| "level (LogImageError p) = ERROR"
| "level (LogLayout c r) = INFO"
| "level LogNoImages = WARNING"
| "level (LogPage n) = INFO"
| "level (LogInsertError p) = ERROR"
| "level (LogGenerated out) = INFO"
| "level (LogStats k n) = INFO"
| "level LogStart = INFO"
| "level LogNoImagesFound = WARNING"
| "level LogDone = INFO"
| "level (LogFatal e) = ERROR"

datatype 'p raised = Raised py_error "'p log_entry list"
  \<comment> \<open>an exception leaving a function, with the log lines written before it\<close>

record 'p env =
  path_exists :: "string \<Rightarrow> bool"
  path_is_dir :: "string \<Rightarrow> bool"
  rglob :: "string \<Rightarrow> 'p list"
  is_file :: "'p \<Rightarrow> bool"
  suffix :: "'p \<Rightarrow> string"
  pil_ok :: "'p \<Rightarrow> bool"
  save_ok :: "nat \<Rightarrow> bool"
  draw_ok :: "nat \<Rightarrow> bool"
  write_ok :: "string \<Rightarrow> bool"

text \<open>
  The environment answers what the libraries would: \<open>path_exists\<close>, \<open>path_is_dir\<close>,
  \<open>rglob\<close>, \<open>is_file\<close> and \<open>suffix\<close> are the \<open>pathlib\<close> calls of \<open>find_image_files\<close>;
  \<open>pil_ok p\<close> says that the imaging calls inside the \<open>try\<close> of \<open>resize_image_to_card\<close>
  all succeed on \<open>p\<close>; \<open>save_ok k\<close> that saving \<open>temp_card_k.png\<close> succeeds; \<open>draw_ok k\<close>
  that \<open>c.drawImage\<close> of that file does; \<open>write_ok path\<close> that \<open>c.save()\<close> can write the
  document at \<open>path\<close>.
\<close>

record 'p gen_state =
  pages :: "'p canvas_op list list"
  code :: "'p canvas_op list"
  log :: "'p log_entry list"
  processed_images :: nat
  current_page :: nat

subsection \<open>Functions\<close>

definition find_image_files ::
  "('p::linorder) env \<Rightarrow> string \<Rightarrow> 'p log_entry list \<Rightarrow> 'p raised + ('p list \<times> 'p log_entry list)" where
  "find_image_files en source_dir lg =
     (if \<not> path_exists en source_dir then Inl (Raised (FileNotFoundError source_dir) lg)
      else if \<not> path_is_dir en source_dir then Inl (Raised (NotADirectoryError source_dir) lg)
      else
        (let image_files =
               filter (\<lambda>file_path. is_file en file_path \<and>
                                   lower (suffix en file_path) \<in> SUPPORTED_EXTENSIONS)
                 (rglob en source_dir)
         in Inr (sort image_files, lg @ [LogFound (length image_files) source_dir])))"

definition resize_image_to_card ::
  "'p env \<Rightarrow> 'p \<Rightarrow> 'p card_image option \<times> 'p log_entry list" where
  \<comment> \<open>the result, and what the \<open>except\<close> branch logs\<close>
  "resize_image_to_card en image_path =
     (if pil_ok en image_path then (Some (CardImage image_path), [])
      else (None, [LogImageError image_path]))"

definition calculate_layout :: "real \<times> real \<Rightarrow> int \<times> int \<times> real \<times> real" where
  \<comment> \<open>the argument is the page size the source imports as \<open>A4\<close>; the info line the
      function logs is written by its caller, \<open>generate_pdf\<close>, as \<open>LogLayout\<close>\<close>
  "calculate_layout pagesize =
     (let page_width = fst pagesize / mm;
          page_height = snd pagesize / mm;
          available_width = page_width - of_int MARGIN_LEFT - of_int MARGIN_RIGHT;
          available_height = page_height - of_int MARGIN_TOP - of_int MARGIN_BOTTOM;
          cols = py_int ((available_width + of_int CARD_SPACING_X)
                          / of_int (CARD_WIDTH_MM + CARD_SPACING_X));
          rows = py_int ((available_height + of_int CARD_SPACING_Y)
                          / of_int (CARD_HEIGHT_MM + CARD_SPACING_Y));
          cols = min cols 3;
          rows = min rows 3;
          total_width = cols * CARD_WIDTH_MM + (cols - 1) * CARD_SPACING_X;
          total_height = rows * CARD_HEIGHT_MM + (rows - 1) * CARD_SPACING_Y;
          start_x = of_int MARGIN_LEFT + (available_width - of_int total_width) / 2;
          start_y = of_int MARGIN_BOTTOM + (available_height - of_int total_height) / 2
      in (cols, rows, start_x, start_y))"

definition corner_marks :: "real \<times> real \<Rightarrow> 'p canvas_op list" where
  \<comment> \<open>the two \<open>c.line\<close> calls for one corner; \<open>mark_length = 3 * mm\<close>\<close>
  "corner_marks corner =
     (let corner_x = fst corner; corner_y = snd corner; mark_length = 3 * mm
      in [Line (corner_x - mark_length) corner_y (corner_x + mark_length) corner_y,
          Line corner_x (corner_y - mark_length) corner_x (corner_y + mark_length)])"

definition draw_cut_marks :: "real \<Rightarrow> real \<Rightarrow> real \<Rightarrow> real \<Rightarrow> 'p canvas_op list" where
  \<comment> \<open>the operations \<open>draw_cut_marks(c, x, y, width, height)\<close> adds to the page\<close>
  "draw_cut_marks x y width height =
     (let x_pt = x * mm; y_pt = y * mm; w_pt = width * mm; h_pt = height * mm;
          corners = [(x_pt, y_pt), (x_pt + w_pt, y_pt), (x_pt, y_pt + h_pt),
                     (x_pt + w_pt, y_pt + h_pt)]
      in [SetStrokeColor, SetLineWidth CUT_MARK_WIDTH] @ concat (map corner_marks corners))"

definition slot_position :: "int \<times> int \<times> real \<times> real \<Rightarrow> nat \<Rightarrow> real \<times> real" where
  \<comment> \<open>lines 255-260: the position in mm of the card with index \<open>j\<close> in its batch\<close>
  "slot_position layout j =
     (case layout of (cols, rows, start_x, start_y) \<Rightarrow>
        (let col = int j mod cols;
             row = int j div cols;
             x = start_x + of_int (col * (CARD_WIDTH_MM + CARD_SPACING_X));
             y = start_y + of_int ((rows - 1 - row) * (CARD_HEIGHT_MM + CARD_SPACING_Y))
         in (x, y)))"

definition process_card ::
  "'p env \<Rightarrow> bool \<Rightarrow> int \<times> int \<times> real \<times> real \<Rightarrow> nat \<Rightarrow> nat \<Rightarrow> 'p \<Rightarrow> 'p gen_state
     \<Rightarrow> 'p raised + 'p gen_state" where
  \<comment> \<open>the body of the inner loop for \<open>(j, image_path)\<close> of the batch starting at \<open>i\<close>.
      Saving the temporary file is outside the \<open>try\<close>: its failure leaves the function.
      A failure of \<open>drawImage\<close> is caught and logged. The temporary file is removed in
      the \<open>finally\<close> branch whatever happened and is not kept in the state; the line
      drawing of \<open>draw_cut_marks\<close> is taken not to raise.\<close>
  "process_card en cut_marks layout i j image_path st =
     (case slot_position layout j of (x, y) \<Rightarrow>
        (case resize_image_to_card en image_path of
           (None, lines) \<Rightarrow> Inr (st\<lparr>log := log st @ lines\<rparr>)
         | (Some processed_img, lines) \<Rightarrow>
             (let st1 = st\<lparr>log := log st @ lines\<rparr>
              in if \<not> save_ok en (i + j) then Inl (Raised OSError (log st1))
                 else if draw_ok en (i + j) then
                   Inr (st1\<lparr>code := code st1
                              @ [DrawImage (i + j) processed_img (x * mm) (y * mm)
                                   (of_int CARD_WIDTH_MM * mm) (of_int CARD_HEIGHT_MM * mm)]
                              @ (if cut_marks
                                 then draw_cut_marks x y (of_int CARD_WIDTH_MM)
                                        (of_int CARD_HEIGHT_MM)
                                 else []),
                            processed_images := processed_images st1 + 1\<rparr>)
                 else Inr (st1\<lparr>log := log st1 @ [LogInsertError image_path]\<rparr>))))"

fun process_batch ::
  "'p env \<Rightarrow> bool \<Rightarrow> int \<times> int \<times> real \<times> real \<Rightarrow> nat \<Rightarrow> nat \<Rightarrow> 'p list \<Rightarrow> 'p gen_state
     \<Rightarrow> 'p raised + 'p gen_state" where
  \<comment> \<open>\<open>for j, image_path in enumerate(batch)\<close>, from index \<open>j\<close> on\<close>
  "process_batch en cut_marks layout i j [] st = Inr st"
| "process_batch en cut_marks layout i j (image_path # rest) st =
     (case process_card en cut_marks layout i j image_path st of
        Inl r \<Rightarrow> Inl r
      | Inr st' \<Rightarrow> process_batch en cut_marks layout i (Suc j) rest st')"

definition showPage :: "'p gen_state \<Rightarrow> 'p gen_state" where
  "showPage st = st\<lparr>pages := pages st @ [code st], code := []\<rparr>"

function page_loop ::
  "'p env \<Rightarrow> bool \<Rightarrow> int \<times> int \<times> real \<times> real \<Rightarrow> 'p list \<Rightarrow> nat \<Rightarrow> bool \<Rightarrow> nat
     \<Rightarrow> 'p gen_state \<Rightarrow> 'p raised + 'p gen_state" where
  \<comment> \<open>\<open>for i in range(0, len(images), cards_per_page)\<close> with a positive step, from \<open>i\<close> on\<close>
  "page_loop en cut_marks layout images cards_per_page preview_only i st =
     (if 0 < cards_per_page \<and> i < length images then
        (if preview_only \<and> current_page st > 1 then Inr st
         else
           (let batch = take cards_per_page (drop i images);
                st1 = st\<lparr>log := log st @ [LogPage (current_page st)]\<rparr>
            in case process_batch en cut_marks layout i 0 batch st1 of
                 Inl r \<Rightarrow> Inl r
               | Inr st2 \<Rightarrow>
                   page_loop en cut_marks layout images cards_per_page preview_only
                     (i + cards_per_page)
                     ((showPage st2)\<lparr>current_page := current_page st2 + 1\<rparr>)))
      else Inr st)"
  by pat_completeness auto
termination
  by (relation "measure (\<lambda>(en, cut_marks, layout, images, cards_per_page, preview_only, i, st).
                            length images - i)") auto

declare page_loop.simps [simp del]

definition canvas_save ::
  "'p env \<Rightarrow> string \<Rightarrow> 'p gen_state \<Rightarrow> py_error + 'p canvas_op list list" where
  \<comment> \<open>\<open>c.save()\<close> for the canvas opened on \<open>output_path\<close>: a page with pending operations
      is finished first, then the pages are written to the file; the call raises when the
      file cannot be written\<close>
  "canvas_save en output_path st =
     (if write_ok en output_path
      then Inr (if code st \<noteq> [] then pages (showPage st) else pages st)
      else Inl OSError)"

definition generate_pdf ::
  "'p env \<Rightarrow> bool \<Rightarrow> real \<times> real \<Rightarrow> 'p list \<Rightarrow> string \<Rightarrow> bool \<Rightarrow> 'p log_entry list
     \<Rightarrow> 'p raised + ('p canvas_op list list option \<times> 'p log_entry list)" where
  \<comment> \<open>returns the pages written at \<open>output_path\<close> (None when nothing is written) and the
      log. \<open>range\<close> raises ValueError for a step of 0 and is empty for a negative step.
      \<open>c.save()\<close> is outside any \<open>try\<close>: when it raises, the function raises and nothing
      is written. The title, author and subject set on the canvas are not part of the
      pages.\<close>
  "generate_pdf en cut_marks pagesize images output_path preview_only lg =
     (if images = [] then Inr (None, lg @ [LogNoImages])
      else
        (case calculate_layout pagesize of (cols, rows, start_x, start_y) \<Rightarrow>
           (let lg1 = lg @ [LogLayout cols rows];
                cards_per_page = cols * rows;
                st0 = \<lparr>pages = [], code = [], log = lg1, processed_images = 0,
                       current_page = 1\<rparr>
            in if cards_per_page = 0 then Inl (Raised ValueError lg1)
               else
                 (case page_loop en cut_marks (cols, rows, start_x, start_y) images
                         (nat cards_per_page) preview_only 0 st0 of
                    Inl r \<Rightarrow> Inl r
                  | Inr st \<Rightarrow>
                      (case canvas_save en output_path st of
                         Inl e \<Rightarrow> Inl (Raised e (log st))
                       | Inr document_pages \<Rightarrow>
                           Inr (Some document_pages,
                                log st @ [LogGenerated output_path,
                                          LogStats (processed_images st)
                                            (length images)]))))))"

record args =
  source_dir :: string
  output_arg :: string  \<comment> \<open>\<open>args.output\<close>\<close>
  preview :: bool
  no_cut_marks :: bool
  verbose :: bool

record 'p run =
  exit_code :: nat
  run_log :: "'p log_entry list"
  document :: "'p canvas_op list list option"
    \<comment> \<open>the pages of the file written at the output path, if one was written\<close>

definition main :: "('p::linorder) env \<Rightarrow> bool \<Rightarrow> real \<times> real \<Rightarrow> args \<Rightarrow> 'p run" where
  \<comment> \<open>\<open>enable\<close> is the value of the global \<open>ENABLE_CUT_MARKS\<close> when \<open>main\<close> starts, \<open>pagesize\<close>
      the imported \<open>A4\<close>. \<open>--verbose\<close> only lowers the log threshold to DEBUG, and no
      DEBUG line is ever written. The result carries the exit code (1 from \<open>sys.exit(1)\<close>).\<close>
  "main en enable pagesize ar =
     (let enable_cut_marks = (if no_cut_marks ar then False else enable);
          lg0 = [LogStart]
      in case find_image_files en (source_dir ar) lg0 of
           Inl (Raised e lg) \<Rightarrow>
             \<lparr>exit_code = 1, run_log = lg @ [LogFatal e], document = None\<rparr>
         | Inr (image_files, lg) \<Rightarrow>
             if image_files = [] then
               \<lparr>exit_code = 0, run_log = lg @ [LogNoImagesFound], document = None\<rparr>
             else
               (case generate_pdf en enable_cut_marks pagesize image_files (output_arg ar)
                       (preview ar) lg of
                  Inl (Raised e lg') \<Rightarrow>
                    \<lparr>exit_code = 1, run_log = lg' @ [LogFatal e], document = None\<rparr>
                | Inr (doc, lg') \<Rightarrow>
                    \<lparr>exit_code = 0, run_log = lg' @ [LogDone], document = doc\<rparr>))"
subsection \<open>Example directories\<close>

definition srt_example :: world where
  "srt_example =
     \<lparr>files = [''movie_en_full.srt'' \<mapsto> replicate 500 CHR ''a'',
               ''en.srt'' \<mapsto> replicate 300 CHR ''b''],
      stdout = []\<rparr>"

definition srt_reverse :: world where
  "srt_reverse =
     \<lparr>files = [''movie_EN_full.srt'' \<mapsto> replicate 300 CHR ''a'',
               ''en.srt'' \<mapsto> replicate 500 CHR ''b''],
      stdout = []\<rparr>"

subsection \<open>Reading a page\<close>

fun is_image :: "'p canvas_op \<Rightarrow> bool" where
  "is_image (DrawImage k img x y w h) = True"
| "is_image SetStrokeColor = False"
| "is_image (SetLineWidth w) = False"
| "is_image (Line x1 y1 x2 y2) = False"

fun placement :: "'p canvas_op \<Rightarrow> (nat \<times> 'p \<times> real \<times> real) list" where
  "placement (DrawImage k (CardImage p) x y w h) = [(k, p, x, y)]"
| "placement SetStrokeColor = []"
| "placement (SetLineWidth w) = []"
| "placement (Line x1 y1 x2 y2) = []"

definition placements :: "'p canvas_op list \<Rightarrow> (nat \<times> 'p \<times> real \<times> real) list" where
  "placements ops = concat (map placement ops)"

subsection \<open>What one card, and one batch, add to the page and to the log\<close>

definition card_code ::
  "'p env \<Rightarrow> bool \<Rightarrow> int \<times> int \<times> real \<times> real \<Rightarrow> nat \<Rightarrow> nat \<times> 'p \<Rightarrow> 'p canvas_op list" where
  "card_code en cut_marks layout i jp =
     (case jp of (j, p) \<Rightarrow>
       (if pil_ok en p \<and> draw_ok en (i + j) then
          (case slot_position layout j of (x, y) \<Rightarrow>
             DrawImage (i + j) (CardImage p) (x * mm) (y * mm)
               (of_int CARD_WIDTH_MM * mm) (of_int CARD_HEIGHT_MM * mm)
             # (if cut_marks
                then draw_cut_marks x y (of_int CARD_WIDTH_MM) (of_int CARD_HEIGHT_MM)
                else []))
        else []))"

definition card_log :: "'p env \<Rightarrow> nat \<Rightarrow> nat \<times> 'p \<Rightarrow> 'p log_entry list" where
  "card_log en i jp =
     (case jp of (j, p) \<Rightarrow>
        (if \<not> pil_ok en p then [LogImageError p]
         else if \<not> draw_ok en (i + j) then [LogInsertError p] else []))"

definition batch_code ::
  "'p env \<Rightarrow> bool \<Rightarrow> int \<times> int \<times> real \<times> real \<Rightarrow> 'p list \<Rightarrow> nat \<Rightarrow> nat \<Rightarrow> 'p canvas_op list" where
  "batch_code en cm layout images C i =
     concat (map (card_code en cm layout i) (enumerate 0 (take C (drop i images))))"

definition batch_log :: "'p env \<Rightarrow> 'p list \<Rightarrow> nat \<Rightarrow> nat \<Rightarrow> 'p log_entry list" where
  "batch_log en images C i =
     concat (map (card_log en i) (enumerate 0 (take C (drop i images))))"

subsection \<open>Reading a result\<close>

definition indices_on :: "'p canvas_op list \<Rightarrow> nat list" where
  "indices_on page = map fst (placements page)"

definition images_on :: "'p canvas_op list \<Rightarrow> 'p list" where
  "images_on page = map (\<lambda>pl. fst (snd pl)) (placements page)"

definition written ::
  "'p raised + ('p canvas_op list list option \<times> 'p log_entry list)
     \<Rightarrow> 'p canvas_op list list option" where
  "written r = (case r of Inl e \<Rightarrow> None | Inr (doc, lg) \<Rightarrow> doc)"

subsection \<open>Example runs\<close>

definition ten_cards :: "nat env" where
  "ten_cards =
     \<lparr>path_exists = (\<lambda>d. d = ''./images''),
      path_is_dir = (\<lambda>d. d = ''./images''),
      rglob = (\<lambda>d. rev [0..<11]),
      is_file = (\<lambda>p. True),
      suffix = (\<lambda>p. if p = 10 then ''.txt'' else if even p then ''.png'' else ''.JPG''),
      pil_ok = (\<lambda>p. True),
      save_ok = (\<lambda>k. True),
      draw_ok = (\<lambda>k. True),
      write_ok = (\<lambda>path. path = ''mtg_cards.pdf'')\<rparr>"

definition ten_cards_damaged :: "nat env" where
  "ten_cards_damaged = ten_cards\<lparr>pil_ok := (\<lambda>p. p \<noteq> 3 \<and> p \<noteq> 9)\<rparr>"

definition default_args :: args where
  "default_args =
     \<lparr>source_dir = ''./images'', output_arg = ''mtg_cards.pdf'', preview = False,
      no_cut_marks = False, verbose = False\<rparr>"

definition missing_directory :: "nat env" where
  "missing_directory = ten_cards\<lparr>path_exists := (\<lambda>d. False), path_is_dir := (\<lambda>d. False)\<rparr>"

definition plain_file :: "nat env" where
  "plain_file = ten_cards\<lparr>path_is_dir := (\<lambda>d. False)\<rparr>"

definition empty_page :: "nat gen_state" where
  "empty_page = \<lparr>pages = [], code = [], log = [], processed_images = 0, current_page = 1\<rparr>"

subsection \<open>Cut marks on a page\<close>

text \<open>
  \<open>marks_for c\<close> are the operations \<open>draw_cut_marks\<close> adds for a drawn image \<open>c\<close>, read
  off the position and size given to \<open>drawImage\<close>; a page is \<open>marked\<close> when every image on
  it is followed by exactly these operations and nothing else is on it. \<open>strip_marks\<close>
  removes everything but the images from a canvas.
\<close>

fun marks_for :: "'p canvas_op \<Rightarrow> 'p canvas_op list" where
  "marks_for (DrawImage k img x y w h) =
     [SetStrokeColor, SetLineWidth CUT_MARK_WIDTH]
     @ concat (map corner_marks [(x, y), (x + w, y), (x, y + h), (x + w, y + h)])"
| "marks_for SetStrokeColor = []"
| "marks_for (SetLineWidth w) = []"
| "marks_for (Line x1 y1 x2 y2) = []"

definition marked :: "'p canvas_op list \<Rightarrow> bool" where
  "marked page = (page = concat (map (\<lambda>c. c # marks_for c) (filter is_image page)))"

definition strip_marks :: "'p gen_state \<Rightarrow> 'p gen_state" where
  "strip_marks st =
     st\<lparr>pages := map (filter is_image) (pages st), code := filter is_image (code st)\<rparr>"

definition strip_result ::
  "'p canvas_op list list option \<times> 'p log_entry list
     \<Rightarrow> 'p canvas_op list list option \<times> 'p log_entry list" where
  "strip_result r = (map_option (map (filter is_image)) (fst r), snd r)"

section \<open>Properties of the file name functions\<close>

lemma str_index_first:
  "c \<in> set s \<Longrightarrow> str_index s c = Inr (length (takeWhile (\<lambda>x. x \<noteq> c) s))"
  by (induction s) auto

lemma str_count_pos: "0 < str_count s c \<longleftrightarrow> c \<in> set s"
  by (auto simp: str_count_def filter_empty_conv)

lemma first_occurrence:
  assumes "c \<in> set s"
  shows "length (takeWhile (\<lambda>x. x \<noteq> c) s) < length s"
    and "s ! length (takeWhile (\<lambda>x. x \<noteq> c) s) = c"
proof -
  show l: "length (takeWhile (\<lambda>x. x \<noteq> c) s) < length s"
    using assms by (induction s) auto
  show "s ! length (takeWhile (\<lambda>x. x \<noteq> c) s) = c"
    using nth_length_takeWhile[OF l] by simp
qed

lemma last4_srt:
  assumes "last4 s = ''.srt''"
  shows "4 \<le> length s" and "j < 4 \<Longrightarrow> s ! (length s - 4 + j) = ''.srt'' ! j"
proof -
  have "length (last4 s) = 4" using assms by simp
  then show l: "4 \<le> length s" by (simp add: last4_def)
  assume "j < 4"
  then have "last4 s ! j = s ! (length s - 4 + j)"
    using l by (simp add: last4_def)
  then show "s ! (length s - 4 + j) = ''.srt'' ! j" using assms by simp
qed

lemma underscore_position:
  assumes "matches filename"
  shows "length (takeWhile (\<lambda>x. x \<noteq> CHR ''_'') filename) + 4 < length filename"
proof -
  define k where "k = length (takeWhile (\<lambda>x. x \<noteq> CHR ''_'') filename)"
  define n where "n = length filename"
  have mem: "CHR ''_'' \<in> set filename" and l4: "last4 filename = ''.srt''"
    using assms by (simp_all add: matches_def str_count_pos)
  have kn: "k < n" and ku: "filename ! k = CHR ''_''"
    using first_occurrence[OF mem] by (simp_all add: k_def n_def)
  have n4: "4 \<le> n" using last4_srt(1)[OF l4] by (simp add: n_def)
  have "k + 4 < n"
  proof (rule ccontr)
    assume "\<not> k + 4 < n"
    define j where "j = k - (n - 4)"
    have j: "j < 4" "k = n - 4 + j"
      using \<open>\<not> k + 4 < n\<close> kn n4 unfolding j_def by linarith+
    from last4_srt(2)[OF l4 j(1)] have "''.srt'' ! j = CHR ''_''"
      using ku j(2) by (simp add: n_def)
    moreover from j(1) have "j = 0 \<or> j = 1 \<or> j = 2 \<or> j = 3" by linarith
    ultimately show False by auto
  qed
  then show ?thesis by (simp add: k_def n_def)
qed

lemma target_name_value:
  assumes "matches filename"
  shows "target_name filename =
           Inr ([lower_char (filename ! (length (takeWhile (\<lambda>x. x \<noteq> CHR ''_'') filename) + 1)),
                 lower_char (filename ! (length (takeWhile (\<lambda>x. x \<noteq> CHR ''_'') filename) + 2))]
                @ ''.srt'')"
proof -
  define k where "k = length (takeWhile (\<lambda>x. x \<noteq> CHR ''_'') filename)"
  have mem: "CHR ''_'' \<in> set filename"
    using assms by (simp add: matches_def str_count_pos)
  have k4: "k + 4 < length filename" using underscore_position[OF assms] by (simp add: k_def)
  have idx: "str_index filename CHR ''_'' = Inr k"
    using str_index_first[OF mem] by (simp add: k_def)
  have d1: "drop (Suc k) filename = filename ! Suc k # drop (Suc (Suc k)) filename"
    using Cons_nth_drop_Suc[of "Suc k" filename, symmetric] k4 by simp
  have d2: "drop (Suc (Suc k)) filename
              = filename ! Suc (Suc k) # drop (Suc (Suc (Suc k))) filename"
    using Cons_nth_drop_Suc[of "Suc (Suc k)" filename, symmetric] k4 by simp
  have "take 2 (drop (Suc k) filename) = [filename ! Suc k, filename ! Suc (Suc k)]"
    unfolding d1 d2 by (simp add: numeral_2_eq_2)
  then have "slice2 filename (k + 1) = [filename ! (k + 1), filename ! (k + 2)]"
    by (simp add: slice2_def)
  then have "target_name filename
               = Inr ([lower_char (filename ! (k + 1)), lower_char (filename ! (k + 2))] @ lower ''.srt'')"
    using idx by (simp add: target_name_def lower_def)
  moreover have "lower ''.srt'' = ''.srt''" by code_simp
  ultimately show ?thesis by (simp add: k_def)
qed

lemma lower_char_dot: "lower_char CHR ''.'' = CHR ''.''" by code_simp
lemma lower_char_s: "lower_char CHR ''s'' = CHR ''s''" by code_simp

lemma target_differs:
  assumes "matches filename" and "target_name filename = Inr f2"
  shows "f2 \<noteq> filename"
proof
  assume eq: "f2 = filename"
  define k where "k = length (takeWhile (\<lambda>x. x \<noteq> CHR ''_'') filename)"
  have mem: "CHR ''_'' \<in> set filename"
    using assms(1) by (simp add: matches_def str_count_pos)
  have ku: "filename ! k = CHR ''_''" using first_occurrence(2)[OF mem] by (simp add: k_def)
  have k4: "k + 4 < length filename" using underscore_position[OF assms(1)] by (simp add: k_def)
  define a where "a = lower_char (filename ! (k + 1))"
  define b where "b = lower_char (filename ! (k + 2))"
  have f: "filename = [a, b] @ ''.srt''"
    using target_name_value[OF assms(1)] assms(2) eq by (simp add: k_def a_def b_def)
  have len: "length filename = 6" by (subst f) simp
  have n0: "filename ! 0 = a" by (subst f) simp
  have n1: "filename ! Suc 0 = b" by (subst f) simp
  have n2: "filename ! Suc (Suc 0) = CHR ''.''" by (subst f) simp
  have n3: "filename ! Suc (Suc (Suc 0)) = CHR ''s''" by (subst f) simp
  from k4 len have "k = 0 \<or> k = 1" by linarith
  then show False
  proof
    assume k0: "k = 0"
    have "b = CHR ''.''" using n2 lower_char_dot by (simp add: b_def k0)
    then have "a = CHR ''.''" using n1 lower_char_dot by (simp add: a_def k0)
    then show False using ku n0 by (simp add: k0)
  next
    assume k1: "k = 1"
    have "b = CHR ''s''" using n3 lower_char_s by (simp add: b_def k1 numeral_3_eq_3)
    then show False using ku n1 by (simp add: k1)
  qed
qed

lemma lower_char_E: "lower_char CHR ''E'' = CHR ''e''" by code_simp
lemma lower_char_N: "lower_char CHR ''N'' = CHR ''n''" by code_simp

section \<open>Properties of the page iteration\<close>

lemma process_card_result:
  assumes "save_ok en (i + j)"
  shows "\<exists>st'. process_card en cm layout i j p st = Inr st'
           \<and> code st' = code st @ card_code en cm layout i (j, p)
           \<and> log st' = log st @ card_log en i (j, p)
           \<and> pages st' = pages st \<and> current_page st' = current_page st"
  using assms
  by (cases "slot_position layout j")
     (simp add: process_card_def card_code_def card_log_def resize_image_to_card_def Let_def)

lemma process_batch_result:
  assumes "\<forall>j'. j \<le> j' \<and> j' < j + length batch \<longrightarrow> save_ok en (i + j')"
  shows "\<exists>st'. process_batch en cm layout i j batch st = Inr st'
           \<and> code st' = code st @ concat (map (card_code en cm layout i) (enumerate j batch))
           \<and> log st' = log st @ concat (map (card_log en i) (enumerate j batch))
           \<and> pages st' = pages st \<and> current_page st' = current_page st"
  using assms
proof (induction batch arbitrary: j st)
  case Nil
  then show ?case by simp
next
  case (Cons p rest)
  from Cons.prems have "save_ok en (i + j)" by simp
  from process_card_result[OF this, of cm layout p st]
  obtain st1 where s1: "process_card en cm layout i j p st = Inr st1"
    "code st1 = code st @ card_code en cm layout i (j, p)"
    "log st1 = log st @ card_log en i (j, p)"
    "pages st1 = pages st" "current_page st1 = current_page st" by blast
  from Cons.prems have "\<forall>j'. Suc j \<le> j' \<and> j' < Suc j + length rest \<longrightarrow> save_ok en (i + j')"
    by simp
  from Cons.IH[OF this, of st1]
  obtain st2 where s2: "process_batch en cm layout i (Suc j) rest st1 = Inr st2"
    "code st2 = code st1 @ concat (map (card_code en cm layout i) (enumerate (Suc j) rest))"
    "log st2 = log st1 @ concat (map (card_log en i) (enumerate (Suc j) rest))"
    "pages st2 = pages st1" "current_page st2 = current_page st1" by blast
  show ?case using s1 s2 by simp
qed

lemma ceil_step:
  fixes C i N :: nat
  assumes "0 < C" "i < N"
  shows "(N - i + C - 1) div C = Suc ((N - (i + C) + C - 1) div C)"
proof -
  have step: "(x + C) div C = Suc (x div C)" for x
    using assms(1) by simp
  show ?thesis
  proof (cases "i + C \<le> N")
    case True
    then have "N - i + C - 1 = (N - (i + C) + C - 1) + C" using assms by linarith
    then show ?thesis by (simp only: step)
  next
    case False
    then have a: "N - (i + C) + C - 1 = C - 1" by linarith
    have a': "(C - 1) div C = 0" using assms(1) by (intro div_less) linarith
    define d where "d = N - i - 1"
    have d: "N - i + C - 1 = d + C" using False assms unfolding d_def by linarith
    have d2: "d div C = 0" using False assms unfolding d_def by (intro div_less) linarith
    show ?thesis by (simp only: a a' d step d2)
  qed
qed

lemma page_loop_result:
  assumes "0 < C" and "\<forall>k<length images. save_ok en k" and "code st = []" and "\<not> pv"
  shows "\<exists>st'. page_loop en cm layout images C pv i st = Inr st'
           \<and> code st' = []
           \<and> pages st' = pages st
                @ map (\<lambda>k. batch_code en cm layout images C (i + k * C))
                    [0..<(length images - i + C - 1) div C]
           \<and> log st' = log st
                @ concat (map (\<lambda>k. LogPage (current_page st + k)
                                     # batch_log en images C (i + k * C))
                            [0..<(length images - i + C - 1) div C])"
  using assms
proof (induction en cm layout images C pv i st rule: page_loop.induct)
  case (1 en cm layout images C pv i st)
  show ?case
  proof (cases "i < length images")
    case False
    then have "(length images - i + C - 1) div C = 0" using \<open>0 < C\<close> by simp
    moreover have "page_loop en cm layout images C pv i st = Inr st"
      using False by (subst page_loop.simps) simp
    ultimately show ?thesis using \<open>code st = []\<close> by simp
  next
    case True
    define batch where "batch = take C (drop i images)"
    define st1 where "st1 = st\<lparr>log := log st @ [LogPage (current_page st)]\<rparr>"
    have "\<forall>j'. 0 \<le> j' \<and> j' < 0 + length batch \<longrightarrow> save_ok en (i + j')"
    proof (intro allI impI)
      fix j' assume "0 \<le> j' \<and> j' < 0 + length batch"
      then have "j' < length images - i" by (simp add: batch_def)
      then have "i + j' < length images" by linarith
      then show "save_ok en (i + j')" using "1.prems"(2) by blast
    qed
    from process_batch_result[OF this, of cm layout st1]
    obtain st2 where s2: "process_batch en cm layout i 0 batch st1 = Inr st2"
      "code st2 = code st1 @ concat (map (card_code en cm layout i) (enumerate 0 batch))"
      "log st2 = log st1 @ concat (map (card_log en i) (enumerate 0 batch))"
      "pages st2 = pages st1" "current_page st2 = current_page st1" by blast
    define st3 where "st3 = (showPage st2)\<lparr>current_page := current_page st2 + 1\<rparr>"
    have c3: "code st3 = []" by (simp add: st3_def showPage_def)
    have ih: "\<exists>st'. page_loop en cm layout images C pv (i + C) st3 = Inr st'
           \<and> code st' = []
           \<and> pages st' = pages st3
                @ map (\<lambda>k. batch_code en cm layout images C (i + C + k * C))
                    [0..<(length images - (i + C) + C - 1) div C]
           \<and> log st' = log st3
                @ concat (map (\<lambda>k. LogPage (current_page st3 + k)
                                     # batch_log en images C (i + C + k * C))
                            [0..<(length images - (i + C) + C - 1) div C])"
      using "1.IH"[of batch st1 st2] True "1.prems" s2(1) c3
      by (simp add: batch_def st1_def st3_def)
    then obtain st' where s': "page_loop en cm layout images C pv (i + C) st3 = Inr st'"
      "code st' = []"
      "pages st' = pages st3
                @ map (\<lambda>k. batch_code en cm layout images C (i + C + k * C))
                    [0..<(length images - (i + C) + C - 1) div C]"
      "log st' = log st3
                @ concat (map (\<lambda>k. LogPage (current_page st3 + k)
                                     # batch_log en images C (i + C + k * C))
                            [0..<(length images - (i + C) + C - 1) div C])" by blast
    have run: "page_loop en cm layout images C pv i st = Inr st'"
      using True "1.prems" s2(1) s'(1)
      by (subst page_loop.simps) (simp add: batch_def st1_def st3_def Let_def)
    have n: "(length images - i + C - 1) div C = Suc ((length images - (i + C) + C - 1) div C)"
      using ceil_step[OF \<open>0 < C\<close> True] .
    have p3: "pages st3 = pages st @ [batch_code en cm layout images C i]"
      using s2 "1.prems"(3) by (simp add: st3_def showPage_def st1_def batch_code_def batch_def)
    have l3: "log st3 = log st @ LogPage (current_page st) # batch_log en images C i"
      using s2 by (simp add: st3_def showPage_def st1_def batch_log_def batch_def)
    have cp3: "current_page st3 = Suc (current_page st)"
      using s2 by (simp add: st3_def showPage_def st1_def)
    show ?thesis
      unfolding n map_upt_Suc
      using run s'(2,3,4) p3 l3 cp3 by (simp add: add.assoc add.commute add.left_commute)
  qed
qed

section \<open>What the document contains\<close>

lemma enumerate_nth: "enumerate 0 xs = map (\<lambda>j. (j, xs ! j)) [0..<length xs]"
proof (rule nth_equalityI)
  show "length (enumerate 0 xs) = length (map (\<lambda>j. (j, xs ! j)) [0..<length xs])" by simp
next
  fix i assume "i < length (enumerate 0 xs)"
  then have i: "i < length xs" by simp
  then have "enumerate 0 xs ! i = (i, xs ! i)" by (simp add: nth_enumerate_eq)
  moreover have "map (\<lambda>j. (j, xs ! j)) [0..<length xs] ! i = (i, xs ! i)" using i by simp
  ultimately show "enumerate 0 xs ! i = map (\<lambda>j. (j, xs ! j)) [0..<length xs] ! i" by simp
qed

lemma concat_map_if:
  "concat (map (\<lambda>x. if P x then [f x] else []) xs) = map f (filter P xs)"
  by (induction xs) auto

lemma placements_Nil: "placements [] = []"
  by (simp add: placements_def)

lemma placements_Cons: "placements (c # ops) = placement c @ placements ops"
  by (simp add: placements_def)

lemma placements_append: "placements (a @ b) = placements a @ placements b"
  by (simp add: placements_def)

lemma placements_marks: "placements (draw_cut_marks x y w h) = []"
  by (simp add: draw_cut_marks_def corner_marks_def Let_def placements_Cons placements_Nil)

lemma placements_card_code:
  "placements (card_code en cm layout i (j, p))
     = (if pil_ok en p \<and> draw_ok en (i + j)
        then [(i + j, p, fst (slot_position layout j) * mm, snd (slot_position layout j) * mm)]
        else [])"
  by (cases "slot_position layout j")
     (simp add: card_code_def placements_Cons placements_Nil placements_marks)

lemma placements_concat: "placements (concat xss) = concat (map placements xss)"
  by (induction xss) (simp_all add: placements_append placements_Nil)

lemma batch_code_index:
  "batch_code en cm layout images C i
     = concat (map (\<lambda>j. card_code en cm layout i (j, take C (drop i images) ! j))
                 [0..<length (take C (drop i images))])"
  by (simp add: batch_code_def enumerate_nth comp_def)

lemma batch_nth:
  assumes "j < min C (length images - i)"
  shows "take C (drop i images) ! j = images ! (i + j)"
proof -
  from assms have 1: "j < C" by simp
  from assms have "j < length images - i" by simp
  then have 2: "i \<le> length images" by linarith
  show ?thesis using 1 2 by (simp add: nth_drop)
qed

lemma placements_batch_code:
  "placements (batch_code en cm layout images C i)
     = map (\<lambda>j. (i + j, images ! (i + j),
                  fst (slot_position layout j) * mm, snd (slot_position layout j) * mm))
         (filter (\<lambda>j. pil_ok en (images ! (i + j)) \<and> draw_ok en (i + j))
            [0..<min C (length images - i)])"
proof -
  have len: "length (take C (drop i images)) = min C (length images - i)"
    by (simp add: min.commute)
  have m: "map (\<lambda>j. placements (card_code en cm layout i (j, take C (drop i images) ! j)))
          [0..<min C (length images - i)]
      = map (\<lambda>j. if pil_ok en (images ! (i + j)) \<and> draw_ok en (i + j)
                          then [(i + j, images ! (i + j),
                                 fst (slot_position layout j) * mm,
                                 snd (slot_position layout j) * mm)] else [])
                 [0..<min C (length images - i)]"
  proof (rule map_cong[OF refl])
    fix j assume "j \<in> set [0..<min C (length images - i)]"
    then have "j < min C (length images - i)" by simp
    from batch_nth[OF this]
    show "placements (card_code en cm layout i (j, take C (drop i images) ! j))
            = (if pil_ok en (images ! (i + j)) \<and> draw_ok en (i + j)
                          then [(i + j, images ! (i + j),
                                 fst (slot_position layout j) * mm,
                                 snd (slot_position layout j) * mm)] else [])"
      by (simp only: placements_card_code)
  qed
  have e1: "placements (batch_code en cm layout images C i)
     = concat (map (\<lambda>j. placements (card_code en cm layout i (j, take C (drop i images) ! j)))
                 [0..<min C (length images - i)])"
    by (simp only: batch_code_index placements_concat map_map comp_def len)
  show ?thesis by (simp only: e1 m concat_map_if)
qed

lemma indices_batch_code:
  "indices_on (batch_code en cm layout images C i)
     = filter (\<lambda>k. pil_ok en (images ! k) \<and> draw_ok en k) [i..<min (i + C) (max i (length images))]"
proof -
  have r: "[i..<min (i + C) (max i (length images))]
             = map (\<lambda>j. j + i) [0..<min C (length images - i)]"
    unfolding map_add_upt by (intro arg_cong2[where f=upt]) auto
  show ?thesis
    unfolding indices_on_def placements_batch_code r filter_map map_map comp_def
    by (simp add: add.commute)
qed

lemma generate_pdf_result:
  assumes "images \<noteq> []" and "calculate_layout pagesize = (cols, rows, sx, sy)"
    and "0 < cols * rows" and "\<forall>k<length images. save_ok en k" and "write_ok en out"
  shows "\<exists>np. generate_pdf en cm pagesize images out False lg
           = Inr (Some (map (\<lambda>k. batch_code en cm (cols, rows, sx, sy) images
                                   (nat (cols * rows)) (k * nat (cols * rows)))
                          [0..<(length images + nat (cols * rows) - 1) div nat (cols * rows)]),
                  lg @ LogLayout cols rows
                     # concat (map (\<lambda>k. LogPage (Suc k)
                                          # batch_log en images (nat (cols * rows))
                                              (k * nat (cols * rows)))
                          [0..<(length images + nat (cols * rows) - 1) div nat (cols * rows)])
                     @ [LogGenerated out, LogStats np (length images)])"
proof -
  define C where "C = nat (cols * rows)"
  define st0 :: "'a gen_state" where
    "st0 = \<lparr>pages = [], code = [], log = lg @ [LogLayout cols rows], processed_images = 0,
            current_page = 1\<rparr>"
  have C: "0 < C" using assms(3) by (simp add: C_def)
  have c0: "code st0 = []" by (simp add: st0_def)
  have nz: "cols \<noteq> 0" "rows \<noteq> 0" using assms(3) by auto
  have st0': "\<lparr>pages = [], code = [], log = lg @ [LogLayout cols rows], processed_images = 0,
            current_page = Suc 0\<rparr> = st0" by (simp add: st0_def)
  from page_loop_result[OF C assms(4) c0, of False cm "(cols, rows, sx, sy)" 0]
  obtain st' where s: "page_loop en cm (cols, rows, sx, sy) images C False 0 st0 = Inr st'"
    "code st' = []"
    "pages st' = pages st0
                @ map (\<lambda>k. batch_code en cm (cols, rows, sx, sy) images C (0 + k * C))
                    [0..<(length images - 0 + C - 1) div C]"
    "log st' = log st0
                @ concat (map (\<lambda>k. LogPage (current_page st0 + k)
                                     # batch_log en images C (0 + k * C))
                            [0..<(length images - 0 + C - 1) div C])"
    by auto
  have "generate_pdf en cm pagesize images out False lg
          = Inr (Some (pages st'),
                 log st' @ [LogGenerated out, LogStats (processed_images st') (length images)])"
    using assms(1,2,5) nz s(1,2)
    by (simp add: generate_pdf_def Let_def C_def[symmetric] st0' canvas_save_def)
  then show ?thesis
    unfolding C_def[symmetric] using s(3,4) by (simp add: st0_def)
qed

section \<open>Batching arithmetic\<close>

lemma ceil_Suc:
  fixes C N :: nat
  assumes "0 < C" "0 < N"
  shows "(N + C - 1) div C = Suc ((N - 1) div C)"
proof -
  have e: "N + C - 1 = (N - 1) + C" using assms by linarith
  have "((N - 1) + C) div C = Suc ((N - 1) div C)" using assms(1) by simp
  then show ?thesis by (simp only: e)
qed

lemma batch_of_index:
  fixes C N k :: nat
  assumes "0 < C" "k < N"
  shows "k div C < (N + C - 1) div C"
proof -
  have "k \<le> N - 1" using assms by linarith
  then have "k div C \<le> (N - 1) div C" by (rule div_le_mono)
  then show ?thesis using ceil_Suc[of C N] assms by linarith
qed

lemma batch_start_in_range:
  fixes C N m :: nat
  assumes "0 < C" "m < (N + C - 1) div C"
  shows "m * C < N"
proof (rule ccontr)
  assume "\<not> m * C < N"
  then have "N \<le> m * C" by simp
  then have "N + C - 1 < (m + 1) * C" using assms(1) by simp
  then have "(N + C - 1) div C < m + 1" using assms(1) by (simp add: div_less_iff_less_mult)
  then show False using assms(2) by simp
qed

lemma concat_chunks:
  assumes "0 < C"
  shows "concat (map (\<lambda>k. take C (drop (i + k * C) xs)) [0..<(length xs - i + C - 1) div C])
           = drop i xs"
proof (induction "length xs - i" arbitrary: i rule: less_induct)
  case less
  show ?case
  proof (cases "i < length xs")
    case False
    then have "(length xs - i + C - 1) div C = 0" using assms by simp
    then show ?thesis using False by simp
  next
    case True
    have n: "(length xs - i + C - 1) div C = Suc ((length xs - (i + C) + C - 1) div C)"
      using ceil_step[OF assms True] .
    have "length xs - (i + C) < length xs - i" using True assms by linarith
    from less[OF this]
    have ih: "concat (map (\<lambda>k. take C (drop (i + C + k * C) xs))
                 [0..<(length xs - (i + C) + C - 1) div C]) = drop (i + C) xs" .
    have d: "drop (i + C) xs = drop C (drop i xs)" by (simp add: add.commute)
    have split: "take C (drop i xs) @ drop (i + C) xs = drop i xs"
      unfolding d by (rule append_take_drop_id)
    have shift: "(\<lambda>k. take C (drop (i + Suc k * C) xs))
                   = (\<lambda>k. take C (drop (i + C + k * C) xs))"
      by (simp add: add.assoc)
    have "concat (map (\<lambda>k. take C (drop (i + k * C) xs))
                    [0..<Suc ((length xs - (i + C) + C - 1) div C)])
            = take C (drop i xs) @ drop (i + C) xs"
      unfolding map_upt_Suc shift using ih by simp
    then show ?thesis unfolding n split .
  qed
qed

lemma last_batch_length:
  fixes C N :: nat
  assumes "0 < C" "0 < N"
  shows "min C (N - ((N + C - 1) div C - 1) * C) = (if N mod C = 0 then C else N mod C)"
proof -
  define q where "q = (N - 1) div C"
  define r where "r = (N - 1) mod C"
  have n: "(N + C - 1) div C - 1 = q" using ceil_Suc[OF assms] by (simp add: q_def)
  have r: "r < C" using assms(1) by (simp add: r_def)
  have "N - 1 = q * C + r" by (simp add: q_def r_def)
  then have N: "N = q * C + (r + 1)" using assms(2) by linarith
  then have rest: "N - q * C = r + 1" by linarith
  have m: "N mod C = (r + 1) mod C" by (subst N) simp
  show ?thesis
  proof (cases "r + 1 = C")
    case True
    then have "N mod C = 0" using m by simp
    then show ?thesis unfolding n rest using True by simp
  next
    case False
    then have "r + 1 < C" using r by linarith
    then have "N mod C = r + 1" using m by simp
    then show ?thesis unfolding n rest using \<open>r + 1 < C\<close> by simp
  qed
qed

section \<open>Layout arithmetic\<close>

lemmas config_defs = CARD_WIDTH_MM_def CARD_HEIGHT_MM_def MARGIN_TOP_def MARGIN_BOTTOM_def
  MARGIN_LEFT_def MARGIN_RIGHT_def CARD_SPACING_X_def CARD_SPACING_Y_def

lemma capped_count_fits:
  fixes a :: real and d :: int
  assumes "0 \<le> a + 1" and "0 < d"
  shows "real_of_int (min (py_int ((a + 1) / of_int d)) 3) * of_int d \<le> a + 1"
proof -
  have nn: "0 \<le> (a + 1) / of_int d" using assms by simp
  then have "py_int ((a + 1) / of_int d) = \<lfloor>(a + 1) / of_int d\<rfloor>" by (simp add: py_int_def)
  then have "real_of_int (min (py_int ((a + 1) / of_int d)) 3) \<le> (a + 1) / of_int d"
    by (metis min.cobounded1 of_int_floor_le of_int_le_iff order_trans)
  then have "real_of_int (min (py_int ((a + 1) / of_int d)) 3) * of_int d
               \<le> (a + 1) / of_int d * of_int d"
    using assms(2) by (intro mult_right_mono) simp_all
  then show ?thesis using assms(2) by simp
qed

lemma centred_offset:
  fixes m a t :: real
  shows "m + (a - t) / 2 - m = a - t - (m + (a - t) / 2 - m)"
  by (simp add: field_simps)

section \<open>Pages, cards and log lines of a document\<close>

lemma batch_code_empty:
  assumes "\<forall>j<min C (length images - i). \<not> pil_ok en (images ! (i + j))"
  shows "batch_code en cm layout images C i = []"
proof -
  have len: "length (take C (drop i images)) = min C (length images - i)"
    by (simp add: min.commute)
  have "card_code en cm layout i (j, take C (drop i images) ! j) = []"
    if "j < min C (length images - i)" for j
    using assms that batch_nth[OF that] by (simp add: card_code_def)
  then show ?thesis
    unfolding batch_code_index len by simp
qed

lemma indices_document:
  assumes "0 < C"
  shows "set (concat (map (\<lambda>m. indices_on (batch_code en cm layout images C (m * C)))
                        [0..<(length images + C - 1) div C]))
           = {k. k < length images \<and> pil_ok en (images ! k) \<and> draw_ok en k}"
proof (intro set_eqI iffI)
  fix k
  assume "k \<in> set (concat (map (\<lambda>m. indices_on (batch_code en cm layout images C (m * C)))
                        [0..<(length images + C - 1) div C]))"
  then obtain m where m: "m < (length images + C - 1) div C"
    and k: "k \<in> set (indices_on (batch_code en cm layout images C (m * C)))"
    by auto
  have "m * C < length images" using batch_start_in_range[OF assms m] .
  then have "max (m * C) (length images) = length images" by simp
  then show "k \<in> {k. k < length images \<and> pil_ok en (images ! k) \<and> draw_ok en k}"
    using k by (simp add: indices_batch_code)
next
  fix k
  assume "k \<in> {k. k < length images \<and> pil_ok en (images ! k) \<and> draw_ok en k}"
  then have kN: "k < length images" and ok: "pil_ok en (images ! k) \<and> draw_ok en k" by simp_all
  define m where "m = k div C"
  have m: "m < (length images + C - 1) div C"
    using batch_of_index[OF assms kN] by (simp add: m_def)
  have lo: "m * C \<le> k" by (simp add: m_def)
  have hi: "k < m * C + C" using assms dividend_less_div_times[of C k] by (simp add: m_def add.commute)
  have "k \<in> set (indices_on (batch_code en cm layout images C (m * C)))"
    using lo hi kN ok by (simp add: indices_batch_code)
  then show "k \<in> set (concat (map (\<lambda>m. indices_on (batch_code en cm layout images C (m * C)))
                        [0..<(length images + C - 1) div C]))"
    using m by auto
qed

lemma images_batch_code:
  assumes "\<forall>k<length images. pil_ok en (images ! k) \<and> draw_ok en k"
  shows "images_on (batch_code en cm layout images C i) = take C (drop i images)"
proof -
  define n where "n = min C (length images - i)"
  have len: "length (take C (drop i images)) = n" by (simp add: n_def min.commute)
  have keep: "filter (\<lambda>j. pil_ok en (images ! (i + j)) \<and> draw_ok en (i + j)) [0..<n] = [0..<n]"
  proof (rule filter_True, rule ballI)
    fix j assume "j \<in> set [0..<n]"
    then have "j < length images - i" by (simp add: n_def)
    then have "i + j < length images" by linarith
    then show "pil_ok en (images ! (i + j)) \<and> draw_ok en (i + j)" using assms by blast
  qed
  have "map (\<lambda>j. images ! (i + j)) [0..<n] = map (\<lambda>j. take C (drop i images) ! j) [0..<n]"
  proof (rule map_cong[OF refl])
    fix j assume "j \<in> set [0..<n]"
    then have "j < min C (length images - i)" by (simp add: n_def)
    from batch_nth[OF this] show "images ! (i + j) = take C (drop i images) ! j" by simp
  qed
  also have "\<dots> = take C (drop i images)"
    using map_nth[of "take C (drop i images)"] by (simp only: len)
  finally have m: "map (\<lambda>j. images ! (i + j)) [0..<n] = take C (drop i images)" .
  show ?thesis
    unfolding images_on_def placements_batch_code n_def[symmetric] keep map_map comp_def
    using m by simp
qed

lemma images_of_batch_code:
  "images_on (batch_code en cm layout images C i)
     = map (\<lambda>k. images ! k)
         (filter (\<lambda>k. pil_ok en (images ! k) \<and> draw_ok en k)
            [i..<min (i + C) (max i (length images))])"
proof -
  have r: "[i..<min (i + C) (max i (length images))]
             = map (\<lambda>j. j + i) [0..<min C (length images - i)]"
    unfolding map_add_upt by (intro arg_cong2[where f=upt]) auto
  show ?thesis
    unfolding images_on_def placements_batch_code r filter_map map_map comp_def
    by (simp add: add.commute)
qed

lemma batch_log_index:
  "batch_log en images C i
     = concat (map (\<lambda>j. card_log en i (j, take C (drop i images) ! j))
                 [0..<length (take C (drop i images))])"
  by (simp add: batch_log_def enumerate_nth comp_def)

lemma log_batch:
  assumes "i \<le> k" and "k < i + C" and "k < length images" and "\<not> pil_ok en (images ! k)"
  shows "LogImageError (images ! k) \<in> set (batch_log en images C i)"
proof -
  define j where "j = k - i"
  have k: "k = i + j" using assms(1) by (simp add: j_def)
  have "j < C" using assms(1,2) unfolding j_def by linarith
  moreover have "j < length images - i" using assms(1,3) unfolding j_def by linarith
  ultimately have j: "j < min C (length images - i)" by simp
  have len: "length (take C (drop i images)) = min C (length images - i)"
    by (simp add: min.commute)
  have "card_log en i (j, take C (drop i images) ! j) = [LogImageError (images ! k)]"
    using assms(4) batch_nth[OF j] by (simp add: card_log_def k)
  then have "LogImageError (images ! k) \<in> set (card_log en i (j, take C (drop i images) ! j))"
    by simp
  moreover have "j \<in> set [0..<length (take C (drop i images))]" using j by (simp only: len) simp
  ultimately show ?thesis
    unfolding batch_log_index set_concat by (intro UN_I[of "card_log en i (j, take C (drop i images) ! j)"]) auto
qed

lemma layout_A4: "calculate_layout A4 = (3, 3, 19 / 2, 31 / 2)"
  by code_simp

section \<open>Slots\<close>

lemma placements_cards:
  "placements (concat (map (card_code en cm layout i) (enumerate 0 batch)))
     = map (\<lambda>j. (i + j, batch ! j,
                  fst (slot_position layout j) * mm, snd (slot_position layout j) * mm))
         (filter (\<lambda>j. pil_ok en (batch ! j) \<and> draw_ok en (i + j)) [0..<length batch])"
proof -
  have "placements (concat (map (card_code en cm layout i) (enumerate 0 batch)))
          = concat (map (\<lambda>j. placements (card_code en cm layout i (j, batch ! j)))
                      [0..<length batch])"
    by (simp only: enumerate_nth placements_concat map_map comp_def)
  then show ?thesis by (simp only: placements_card_code concat_map_if)
qed

lemma slot_position_value:
  "slot_position (cols, rows, start_x, start_y) j
     = (start_x + of_int ((int j mod cols) * (CARD_WIDTH_MM + CARD_SPACING_X)),
        start_y + of_int ((rows - 1 - int j div cols) * (CARD_HEIGHT_MM + CARD_SPACING_Y)))"
  by (simp add: slot_position_def Let_def)

lemma later_slot_not_higher:
  fixes cols rows :: int and start_y :: real
  assumes "0 < cols" and "j \<le> j'"
  shows "start_y + of_int ((rows - 1 - int j' div cols) * (CARD_HEIGHT_MM + CARD_SPACING_Y))
           \<le> start_y + of_int ((rows - 1 - int j div cols) * (CARD_HEIGHT_MM + CARD_SPACING_Y))"
proof -
  have "int j div cols \<le> int j' div cols"
    using assms by (intro zdiv_mono1) simp_all
  then have "rows - 1 - int j' div cols \<le> rows - 1 - int j div cols" by linarith
  then have "(rows - 1 - int j' div cols) * (CARD_HEIGHT_MM + CARD_SPACING_Y)
               \<le> (rows - 1 - int j div cols) * (CARD_HEIGHT_MM + CARD_SPACING_Y)"
    by (intro mult_right_mono) (simp_all add: CARD_HEIGHT_MM_def CARD_SPACING_Y_def)
  then show ?thesis by (simp only: add_le_cancel_left of_int_le_iff)
qed

section \<open>Cut marks\<close>

lemma draw_cut_marks_for:
  "draw_cut_marks x y w h = marks_for (DrawImage k img (x * mm) (y * mm) (w * mm) (h * mm))"
  by (simp add: draw_cut_marks_def Let_def)

lemma no_image_in_marks: "filter is_image (draw_cut_marks x y w h) = []"
  by (simp add: draw_cut_marks_def corner_marks_def Let_def)

lemma process_card_strip:
  "process_card en False layout i j p (strip_marks st)
     = map_sum id strip_marks (process_card en cm layout i j p st)"
  by (cases "slot_position layout j")
     (simp add: process_card_def resize_image_to_card_def strip_marks_def Let_def
        no_image_in_marks)

lemma process_batch_strip:
  "process_batch en False layout i j batch (strip_marks st)
     = map_sum id strip_marks (process_batch en cm layout i j batch st)"
proof (induction batch arbitrary: j st)
  case Nil
  then show ?case by simp
next
  case (Cons p rest)
  show ?case
  proof (cases "process_card en cm layout i j p st")
    case (Inl r)
    then show ?thesis by (simp add: process_card_strip[of en layout i j p st cm])
  next
    case (Inr st1)
    then show ?thesis
      by (simp add: process_card_strip[of en layout i j p st cm] Cons.IH)
  qed
qed

lemma showPage_strip:
  "strip_marks ((showPage st)\<lparr>current_page := n\<rparr>)
     = (showPage (strip_marks st))\<lparr>current_page := n\<rparr>"
  by (simp add: showPage_def strip_marks_def)

lemma log_strip:
  "strip_marks (st\<lparr>log := l\<rparr>) = (strip_marks st)\<lparr>log := l\<rparr>"
  by (simp add: strip_marks_def)

lemma strip_fields:
  "current_page (strip_marks st) = current_page st"
  "log (strip_marks st) = log st"
  "processed_images (strip_marks st) = processed_images st"
  by (simp_all add: strip_marks_def)

lemma page_loop_unfold:
  "page_loop en cm layout images C pv i st =
     (if 0 < C \<and> i < length images then
        (if pv \<and> current_page st > 1 then Inr st
         else
           (case process_batch en cm layout i 0 (take C (drop i images))
                   (st\<lparr>log := log st @ [LogPage (current_page st)]\<rparr>) of
              Inl r \<Rightarrow> Inl r
            | Inr st2 \<Rightarrow>
                page_loop en cm layout images C pv (i + C)
                  ((showPage st2)\<lparr>current_page := current_page st2 + 1\<rparr>)))
      else Inr st)"
  by (subst page_loop.simps) (simp add: Let_def)

lemma page_loop_strip:
  "page_loop en False layout images C pv i (strip_marks st)
     = map_sum id strip_marks (page_loop en cm layout images C pv i st)"
proof (induction en cm layout images C pv i st rule: page_loop.induct)
  case (1 en cm layout images C pv i st)
  show ?case
  proof (cases "0 < C \<and> i < length images")
    case False
    show ?thesis
      unfolding page_loop_unfold[of en cm layout images C pv i st]
        page_loop_unfold[of en False layout images C pv i "strip_marks st"]
      using False by auto
  next
    case run: True
    show ?thesis
    proof (cases "pv \<and> current_page st > 1")
      case True
      show ?thesis
        unfolding page_loop_unfold[of en cm layout images C pv i st]
          page_loop_unfold[of en False layout images C pv i "strip_marks st"]
        using run True by (simp add: strip_fields)
    next
      case False
      define st1 where "st1 = st\<lparr>log := log st @ [LogPage (current_page st)]\<rparr>"
      define batch where "batch = take C (drop i images)"
      have b: "process_batch en False layout i 0 batch (strip_marks st1)
                 = map_sum id strip_marks (process_batch en cm layout i 0 batch st1)"
        by (rule process_batch_strip)
      have l: "page_loop en cm layout images C pv i st
                 = (case process_batch en cm layout i 0 batch st1 of
                      Inl r \<Rightarrow> Inl r
                    | Inr st2 \<Rightarrow>
                        page_loop en cm layout images C pv (i + C)
                          ((showPage st2)\<lparr>current_page := current_page st2 + 1\<rparr>))"
        unfolding page_loop_unfold[of en cm layout images C pv i st]
        using run False by (auto simp: st1_def batch_def)
      have r: "page_loop en False layout images C pv i (strip_marks st)
                 = (case process_batch en False layout i 0 batch (strip_marks st1) of
                      Inl r \<Rightarrow> Inl r
                    | Inr st2 \<Rightarrow>
                        page_loop en False layout images C pv (i + C)
                          ((showPage st2)\<lparr>current_page := current_page st2 + 1\<rparr>))"
        unfolding page_loop_unfold[of en False layout images C pv i "strip_marks st"]
        using run False by (auto simp: st1_def batch_def strip_fields log_strip)
      show ?thesis
      proof (cases "process_batch en cm layout i 0 batch st1")
        case (Inl e)
        then show ?thesis unfolding l r b by simp
      next
        case (Inr st2)
        have ih: "page_loop en False layout images C pv (i + C)
                     (strip_marks ((showPage st2)\<lparr>current_page := current_page st2 + 1\<rparr>))
                   = map_sum id strip_marks
                       (page_loop en cm layout images C pv (i + C)
                          ((showPage st2)\<lparr>current_page := current_page st2 + 1\<rparr>))"
          using "1.IH"[of batch st1 st2] run False Inr by (simp add: batch_def st1_def id_def)
        show ?thesis
          unfolding l r b Inr using ih by (simp add: showPage_strip strip_fields id_def)
      qed
    qed
  qed
qed

lemma process_batch_pages:
  "process_batch en cm layout i j batch st = Inr st' \<Longrightarrow> pages st' = pages st"
proof (induction batch arbitrary: j st)
  case Nil
  then show ?case by simp
next
  case (Cons p rest)
  from Cons.prems obtain st1 where 1: "process_card en cm layout i j p st = Inr st1"
    and 2: "process_batch en cm layout i (Suc j) rest st1 = Inr st'"
    by (auto split: sum.splits)
  have "pages st1 = pages st"
    using 1 by (cases "slot_position layout j")
      (auto simp: process_card_def resize_image_to_card_def Let_def split: if_splits)
  then show ?case using Cons.IH[OF 2] by simp
qed

lemma page_loop_code_empty:
  "code st = [] \<Longrightarrow> page_loop en cm layout images C pv i st = Inr st' \<Longrightarrow> code st' = []"
proof (induction en cm layout images C pv i st rule: page_loop.induct)
  case (1 en cm layout images C pv i st)
  show ?case
  proof (cases "0 < C \<and> i < length images \<and> \<not> (pv \<and> current_page st > 1)")
    case False
    have "page_loop en cm layout images C pv i st = Inr st"
      unfolding page_loop_unfold[of en cm layout images C pv i st]
      using False by auto
    then show ?thesis using "1.prems" by simp
  next
    case True
    define st1 where "st1 = st\<lparr>log := log st @ [LogPage (current_page st)]\<rparr>"
    define batch where "batch = take C (drop i images)"
    have l: "page_loop en cm layout images C pv i st
                 = (case process_batch en cm layout i 0 batch st1 of
                      Inl r \<Rightarrow> Inl r
                    | Inr st2 \<Rightarrow>
                        page_loop en cm layout images C pv (i + C)
                          ((showPage st2)\<lparr>current_page := current_page st2 + 1\<rparr>))"
      unfolding page_loop_unfold[of en cm layout images C pv i st]
      using True by (auto simp: st1_def batch_def)
    from "1.prems"(2) obtain st2 where 2: "process_batch en cm layout i 0 batch st1 = Inr st2"
      and 3: "page_loop en cm layout images C pv (i + C)
                ((showPage st2)\<lparr>current_page := current_page st2 + 1\<rparr>) = Inr st'"
      unfolding l by (auto split: sum.splits)
    have "code ((showPage st2)\<lparr>current_page := current_page st2 + 1\<rparr>) = []"
      by (simp add: showPage_def)
    from "1.IH"[of batch st1 st2, OF _ _ _ _ _ this 3] True 2
    show ?thesis by (simp add: batch_def st1_def)
  qed
qed

lemma generate_pdf_strip:
  "generate_pdf en False pagesize images out pv lg
     = map_sum id strip_result (generate_pdf en cm pagesize images out pv lg)"
proof (cases "images = []")
  case True
  then show ?thesis by (simp add: generate_pdf_def strip_result_def)
next
  case False
  obtain cols rows sx sy where lay: "calculate_layout pagesize = (cols, rows, sx, sy)"
    by (cases "calculate_layout pagesize") auto
  show ?thesis
  proof (cases "cols * rows = 0")
    case True
    then show ?thesis using False lay by (simp add: generate_pdf_def Let_def)
  next
    case nz: False
    define st0 :: "'a gen_state" where
      "st0 = \<lparr>pages = [], code = [], log = lg @ [LogLayout cols rows], processed_images = 0,
              current_page = 1\<rparr>"
    have s0: "strip_marks st0 = st0" by (simp add: st0_def strip_marks_def)
    have c0: "code st0 = []" by (simp add: st0_def)
    have g: "generate_pdf en c pagesize images out pv lg
               = (case page_loop en c (cols, rows, sx, sy) images (nat (cols * rows)) pv 0 st0 of
                    Inl r \<Rightarrow> Inl r
                  | Inr st \<Rightarrow>
                      (case canvas_save en out st of
                         Inl e \<Rightarrow> Inl (Raised e (log st))
                       | Inr document_pages \<Rightarrow>
                           Inr (Some document_pages,
                                log st @ [LogGenerated out,
                                          LogStats (processed_images st)
                                            (length images)])))" for c
      using False lay nz by (simp add: generate_pdf_def Let_def st0_def)
    have p: "page_loop en False (cols, rows, sx, sy) images (nat (cols * rows)) pv 0 st0
               = map_sum id strip_marks
                   (page_loop en cm (cols, rows, sx, sy) images (nat (cols * rows)) pv 0 st0)"
      using page_loop_strip[of en "(cols, rows, sx, sy)" images "nat (cols * rows)" pv 0 st0 cm]
      by (simp only: s0)
    show ?thesis
    proof (cases "page_loop en cm (cols, rows, sx, sy) images (nat (cols * rows)) pv 0 st0")
      case (Inl r)
      then show ?thesis unfolding g p by simp
    next
      case (Inr st)
      have "code st = []" using page_loop_code_empty[OF c0 Inr] .
      then show ?thesis
        unfolding g p Inr
        by (cases "write_ok en out")
           (simp_all add: canvas_save_def strip_marks_def strip_result_def)
    qed
  qed
qed

lemma marked_Nil: "marked []"
  by (simp add: marked_def)

lemma marked_append: "marked a \<Longrightarrow> marked b \<Longrightarrow> marked (a @ b)"
  by (simp add: marked_def)

lemma marked_card:
  "marked (DrawImage k img (x * mm) (y * mm) (w * mm) (h * mm) # draw_cut_marks x y w h)"
proof -
  have "filter is_image (DrawImage k img (x * mm) (y * mm) (w * mm) (h * mm)
                          # draw_cut_marks x y w h)
          = [DrawImage k img (x * mm) (y * mm) (w * mm) (h * mm)]"
    by (simp add: no_image_in_marks)
  then show ?thesis
    unfolding marked_def
    by (simp add: draw_cut_marks_for[of x y w h k img])
qed

lemma process_card_marked:
  assumes "marked (code st)" and "process_card en True layout i j p st = Inr st'"
  shows "marked (code st')"
proof (cases "slot_position layout j")
  case (Pair x y)
  show ?thesis
  proof (cases "pil_ok en p \<and> save_ok en (i + j) \<and> draw_ok en (i + j)")
    case True
    then have "code st' = code st
                 @ (DrawImage (i + j) (CardImage p) (x * mm) (y * mm)
                      (of_int CARD_WIDTH_MM * mm) (of_int CARD_HEIGHT_MM * mm)
                    # draw_cut_marks x y (of_int CARD_WIDTH_MM) (of_int CARD_HEIGHT_MM))"
      using assms(2) Pair
      by (auto simp: process_card_def resize_image_to_card_def Let_def)
    then show ?thesis
      using marked_append[OF assms(1)
              marked_card[of "i + j" "CardImage p" x y "of_int CARD_WIDTH_MM"
                "of_int CARD_HEIGHT_MM"]]
      by (simp only:)
  next
    case False
    then have "code st' = code st"
      using assms(2) Pair
      by (auto simp: process_card_def resize_image_to_card_def Let_def split: if_splits)
    then show ?thesis using assms(1) by simp
  qed
qed

lemma process_batch_marked:
  "marked (code st) \<Longrightarrow> process_batch en True layout i j batch st = Inr st'
     \<Longrightarrow> marked (code st')"
proof (induction batch arbitrary: j st)
  case Nil
  then show ?case by simp
next
  case (Cons p rest)
  from Cons.prems(2) obtain st1 where 1: "process_card en True layout i j p st = Inr st1"
    and 2: "process_batch en True layout i (Suc j) rest st1 = Inr st'"
    by (auto split: sum.splits)
  from process_card_marked[OF Cons.prems(1) 1] have "marked (code st1)" .
  from Cons.IH[OF this 2] show ?case .
qed

lemma page_loop_marked:
  "list_all marked (pages st) \<Longrightarrow> marked (code st)
     \<Longrightarrow> page_loop en True layout images C pv i st = Inr st'
     \<Longrightarrow> list_all marked (pages st') \<and> marked (code st')"
proof (induction en "True" layout images C pv i st rule: page_loop.induct)
  case (1 en layout images C pv i st)
  show ?case
  proof (cases "0 < C \<and> i < length images \<and> \<not> (pv \<and> current_page st > 1)")
    case False
    have "page_loop en True layout images C pv i st = Inr st"
      unfolding page_loop_unfold[of en True layout images C pv i st]
      using False by auto
    then show ?thesis using "1.prems" by simp
  next
    case True
    define st1 where "st1 = st\<lparr>log := log st @ [LogPage (current_page st)]\<rparr>"
    define batch where "batch = take C (drop i images)"
    have l: "page_loop en True layout images C pv i st
                 = (case process_batch en True layout i 0 batch st1 of
                      Inl r \<Rightarrow> Inl r
                    | Inr st2 \<Rightarrow>
                        page_loop en True layout images C pv (i + C)
                          ((showPage st2)\<lparr>current_page := current_page st2 + 1\<rparr>))"
      unfolding page_loop_unfold[of en True layout images C pv i st]
      using True by (auto simp: st1_def batch_def)
    from "1.prems"(3) obtain st2 where 2: "process_batch en True layout i 0 batch st1 = Inr st2"
      and 3: "page_loop en True layout images C pv (i + C)
                ((showPage st2)\<lparr>current_page := current_page st2 + 1\<rparr>) = Inr st'"
      unfolding l by (auto split: sum.splits)
    have m1: "marked (code st1)" using "1.prems"(2) by (simp add: st1_def)
    have m2: "marked (code st2)" by (rule process_batch_marked[OF m1 2])
    have p2: "pages st2 = pages st" using process_batch_pages[OF 2] by (simp add: st1_def)
    have a: "list_all marked (pages ((showPage st2)\<lparr>current_page := current_page st2 + 1\<rparr>))"
      using "1.prems"(1) m2 p2 by (simp add: showPage_def)
    have b: "marked (code ((showPage st2)\<lparr>current_page := current_page st2 + 1\<rparr>))"
      by (simp add: showPage_def marked_Nil)
    from "1.hyps"[of batch st1 st2, OF _ _ _ _ _ a b 3] True 2
    show ?thesis by (simp add: batch_def st1_def)
  qed
qed

lemma generate_pdf_marked:
  assumes "generate_pdf en True pagesize images out pv lg = Inr (Some doc, lg')"
  shows "list_all marked doc"
proof -
  obtain cols rows sx sy where lay: "calculate_layout pagesize = (cols, rows, sx, sy)"
    by (cases "calculate_layout pagesize") auto
  define st0 :: "'a gen_state" where
    "st0 = \<lparr>pages = [], code = [], log = lg @ [LogLayout cols rows], processed_images = 0,
            current_page = 1\<rparr>"
  from assms lay obtain st where
    1: "page_loop en True (cols, rows, sx, sy) images (nat (cols * rows)) pv 0 st0 = Inr st"
    and 2: "canvas_save en out st = Inr doc"
    by (auto simp: generate_pdf_def Let_def st0_def split: if_splits sum.splits)
  from 2 have 3: "doc = (if code st \<noteq> [] then pages (showPage st) else pages st)"
    by (auto simp: canvas_save_def split: if_splits)
  have "list_all marked (pages st0)" and "marked (code st0)"
    by (simp_all add: st0_def marked_Nil)
  from page_loop_marked[OF this 1]
  show ?thesis unfolding 3 by (simp add: showPage_def)
qed

lemma main_mode:
  "main en enable pagesize ar = main en (enable \<and> \<not> no_cut_marks ar) pagesize ar"
  by (cases "no_cut_marks ar") (simp_all add: main_def)

lemma main_strip:
  "main en False pagesize ar
     = (main en c pagesize ar)
         \<lparr>document := map_option (map (filter is_image)) (document (main en c pagesize ar))\<rparr>"
proof (cases "find_image_files en (source_dir ar) [LogStart]")
  case (Inl r)
  then show ?thesis by (cases r) (simp add: main_def)
next
  case (Inr fl)
  obtain image_files lg where fl: "fl = (image_files, lg)" by (cases fl) auto
  show ?thesis
  proof (cases "image_files = []")
    case True
    then show ?thesis using Inr fl by (simp add: main_def)
  next
    case False
    define c' where "c' = (if no_cut_marks ar then False else c)"
    have g: "generate_pdf en False pagesize image_files (output_arg ar) (preview ar) lg
               = map_sum id strip_result
                   (generate_pdf en c' pagesize image_files (output_arg ar) (preview ar) lg)"
      by (rule generate_pdf_strip)
    have m: "main en b pagesize ar
               = (case generate_pdf en (if no_cut_marks ar then False else b) pagesize image_files
                         (output_arg ar) (preview ar) lg of
                    Inl (Raised e lg') \<Rightarrow>
                      \<lparr>exit_code = 1, run_log = lg' @ [LogFatal e], document = None\<rparr>
                  | Inr (doc, lg') \<Rightarrow>
                      \<lparr>exit_code = 0, run_log = lg' @ [LogDone], document = doc\<rparr>)" for b
      using Inr fl False by (simp add: main_def)
    show ?thesis
    proof (cases "generate_pdf en c' pagesize image_files (output_arg ar) (preview ar) lg")
      case (Inl r)
      then show ?thesis
        unfolding m[of False] m[of c] c'_def[symmetric] using g
        by (cases r) (simp add: c'_def)
    next
      case (Inr dl)
      then show ?thesis
        unfolding m[of False] m[of c] c'_def[symmetric] using g
        by (cases dl) (simp add: c'_def strip_result_def)
    qed
  qed
qed

section \<open>An output file that cannot be written\<close>

lemma unwritable_output_writes_nothing:
  assumes "\<not> write_ok en out"
  shows "written (generate_pdf en cm pagesize images out pv lg) = None"
proof (cases "generate_pdf en cm pagesize images out pv lg")
  case (Inl r)
  then show ?thesis by (simp add: written_def)
next
  case (Inr dl)
  obtain doc lg' where dl: "dl = (doc, lg')" by (cases dl) auto
  have "doc = None"
    using Inr dl assms
    by (auto simp: generate_pdf_def canvas_save_def Let_def
             split: if_splits sum.splits prod.splits)
  then show ?thesis using Inr dl by (simp add: written_def)
qed

lemma unwritable_output_example:
  "exit_code (main ten_cards ENABLE_CUT_MARKS A4
                (default_args\<lparr>output_arg := ''/nonexistent_dir/out.pdf''\<rparr>)) = 1
   \<and> document (main ten_cards ENABLE_CUT_MARKS A4
                  (default_args\<lparr>output_arg := ''/nonexistent_dir/out.pdf''\<rparr>)) = None"
  by code_simp

section \<open>Specified properties\<close>

text \<open>
  C1, as the script behaves. Conflict resolution: for a scanned file whose target name
  already exists, after the file is processed the file kept under the target name is the
  one with the strictly smaller byte size; on an exact tie the file that was already there
  is kept. The scanned name is gone in both cases.
\<close>

theorem conflict_keeps_smaller:
  assumes "matches filename" and "target_name filename = Inr f2"
    and "files w filename = Some src" and "files w f2 = Some tgt"
  shows "file_at (process_file filename w) f2
           = Some (if length src < length tgt then src else tgt)
         \<and> file_at (process_file filename w) filename = None"
  using assms target_differs[OF assms(1,2)]
  by (simp add: process_file_def isfile_def getsize_def os_remove_def os_rename_def file_at_def)

theorem conflict_keeps_smaller_example:
  "file_at (process_file ''movie_EN_full.srt'' srt_reverse) ''en.srt''
     = Some (replicate 300 CHR ''a'')
   \<and> file_at (process_file ''movie_EN_full.srt'' srt_reverse) ''movie_EN_full.srt'' = None"
proof -
  have m: "matches ''movie_EN_full.srt''" by code_simp
  have t: "target_name ''movie_EN_full.srt'' = Inr ''en.srt''" by code_simp
  have s: "files srt_reverse ''movie_EN_full.srt'' = Some (replicate 300 CHR ''a'')"
    by (simp add: srt_reverse_def)
  have e: "files srt_reverse ''en.srt'' = Some (replicate 500 CHR ''b'')"
    by (simp add: srt_reverse_def)
  show ?thesis using conflict_keeps_smaller[OF m t s e] by simp
qed

text \<open>
  The example of the specification: \<open>movie_en_full.srt\<close> of 500 bytes is scanned while
  \<open>en.srt\<close> of 300 bytes exists. The script deletes the scanned file and leaves \<open>en.srt\<close>
  as it was, 300 bytes long.
\<close>

theorem larger_scanned_file_is_deleted:
  "size_at (cleanSRT [''movie_en_full.srt'', ''en.srt''] srt_example) ''en.srt'' = Some 300
   \<and> file_at (cleanSRT [''movie_en_full.srt'', ''en.srt''] srt_example) ''en.srt''
       = files srt_example ''en.srt''
   \<and> file_at (cleanSRT [''movie_en_full.srt'', ''en.srt''] srt_example) ''movie_en_full.srt''
       = None"
proof -
  have m: "matches ''movie_en_full.srt''" by code_simp
  have m': "\<not> matches ''en.srt''" by code_simp
  have t: "target_name ''movie_en_full.srt'' = Inr ''en.srt''" by code_simp
  show ?thesis
    using m m' t
    by (simp add: srt_example_def size_at_def file_at_def process_file_def isfile_def
        getsize_def os_remove_def os_rename_def)
qed

text \<open>
  C2, as the program behaves. Cut-mark mode is the value of the global \<open>ENABLE_CUT_MARKS\<close>,
  forced off by \<open>--no-cut-marks\<close>. The module sets the global to \<open>False\<close>, so the run as
  shipped is the run with the mode off, with or without the flag. The marks have no effect
  on anything else: the run with the mode off has the same exit code and log, and its
  document is the document of the run with the mode on with every operation but the images
  removed. With the mode on and the flag absent, every image in the document is followed
  by the stroke settings and the eight tick lines through the four corners of its card.
\<close>

theorem cut_marks_mode:
  "main en enable pagesize ar = main en (enable \<and> \<not> no_cut_marks ar) pagesize ar
   \<and> main en ENABLE_CUT_MARKS pagesize ar = main en False pagesize ar
   \<and> document (main en False pagesize ar)
       = map_option (map (filter is_image)) (document (main en enable pagesize ar))
   \<and> exit_code (main en False pagesize ar) = exit_code (main en enable pagesize ar)
   \<and> run_log (main en False pagesize ar) = run_log (main en enable pagesize ar)
   \<and> (\<not> no_cut_marks ar \<longrightarrow>
        (\<forall>doc. document (main en True pagesize ar) = Some doc \<longrightarrow> list_all marked doc))"
proof (intro conjI impI allI)
  show "main en enable pagesize ar = main en (enable \<and> \<not> no_cut_marks ar) pagesize ar"
    by (rule main_mode)
  show "main en ENABLE_CUT_MARKS pagesize ar = main en False pagesize ar"
    by (simp add: ENABLE_CUT_MARKS_def)
  show "document (main en False pagesize ar)
       = map_option (map (filter is_image)) (document (main en enable pagesize ar))"
    by (subst main_strip[of en pagesize ar enable]) simp
  show "exit_code (main en False pagesize ar) = exit_code (main en enable pagesize ar)"
    by (subst main_strip[of en pagesize ar enable]) simp
  show "run_log (main en False pagesize ar) = run_log (main en enable pagesize ar)"
    by (subst main_strip[of en pagesize ar enable]) simp
next
  fix doc
  assume flag: "\<not> no_cut_marks ar" and d: "document (main en True pagesize ar) = Some doc"
  show "list_all marked doc"
  proof (cases "find_image_files en (source_dir ar) [LogStart]")
    case (Inl r)
    then show ?thesis using d by (cases r) (simp add: main_def)
  next
    case (Inr fl)
    obtain image_files lg where fl: "fl = (image_files, lg)" by (cases fl) auto
    show ?thesis
    proof (cases "generate_pdf en True pagesize image_files (output_arg ar) (preview ar) lg")
      case (Inl r)
      then show ?thesis using d Inr fl flag
        by (cases r) (simp add: main_def split: if_splits)
    next
      case g: (Inr dl)
      obtain doc' lg' where dl: "dl = (doc', lg')" by (cases dl) auto
      have "doc' = Some doc"
        using d Inr fl flag g dl by (simp add: main_def split: if_splits)
      then show ?thesis using generate_pdf_marked[of en pagesize image_files _ _ lg doc lg'] g dl
        by simp
    qed
  qed
qed

theorem cut_marks_mode_example:
  "main ten_cards ENABLE_CUT_MARKS A4 default_args = main ten_cards False A4 default_args
   \<and> (\<exists>doc. document (main ten_cards True A4 default_args) = Some doc
            \<and> list_all marked doc \<and> map length doc = [99, 11])"
proof -
  note t = cut_marks_mode[of ten_cards ENABLE_CUT_MARKS A4 default_args]
  have off: "main ten_cards ENABLE_CUT_MARKS A4 default_args = main ten_cards False A4 default_args"
    using t by (elim conjE)
  have imp: "\<not> no_cut_marks default_args \<longrightarrow>
        (\<forall>doc. document (main ten_cards True A4 default_args) = Some doc
               \<longrightarrow> list_all marked doc)"
    using t by (elim conjE)
  have e: "map_option (map length) (document (main ten_cards True A4 default_args))
             = Some [99, 11]"
    by code_simp
  then obtain doc where d: "document (main ten_cards True A4 default_args) = Some doc"
    and l: "map length doc = [99, 11]"
    by (cases "document (main ten_cards True A4 default_args)") simp_all
  have f: "\<not> no_cut_marks default_args" by (simp add: default_args_def)
  have m: "list_all marked doc" using imp f d by (elim impE allE) assumption+
  show ?thesis
  proof (intro conjI exI)
    show "main ten_cards ENABLE_CUT_MARKS A4 default_args = main ten_cards False A4 default_args"
      by (rule off)
    show "document (main ten_cards True A4 default_args) = Some doc" by (rule d)
    show "list_all marked doc" by (rule m)
    show "map length doc = [99, 11]" by (rule l)
  qed
qed

text \<open>
  The default run (no flag) on ten images: both pages hold their images and no other
  operation, so no tick mark is drawn.
\<close>

theorem default_run_draws_no_marks:
  "map_option (map (\<lambda>page. (length (filter is_image page),
                              length (filter (\<lambda>c. \<not> is_image c) page))))
     (document (main ten_cards ENABLE_CUT_MARKS A4 default_args)) = Some [(9, 0), (1, 0)]
   \<and> no_cut_marks default_args = False"
proof (rule conjI)
  show "map_option (map (\<lambda>page. (length (filter is_image page),
                              length (filter (\<lambda>c. \<not> is_image c) page))))
     (document (main ten_cards ENABLE_CUT_MARKS A4 default_args)) = Some [(9, 0), (1, 0)]"
    by code_simp
  show "no_cut_marks default_args = False" by (simp add: default_args_def)
qed

text \<open>
  C3. Code extraction: for a file name that contains an underscore and ends in \<open>.srt\<close>,
  the target name is the two characters right after the first underscore, lowercased,
  followed by \<open>.srt\<close>; when no file of that name exists yet, the file is found under
  exactly that name afterwards.
\<close>

theorem target_is_code_after_first_underscore:
  assumes "matches filename"
  shows "let k = length (takeWhile (\<lambda>x. x \<noteq> CHR ''_'') filename);
             code = [lower_char (filename ! (k + 1)), lower_char (filename ! (k + 2))]
         in k + 2 < length filename \<and> filename ! k = CHR ''_''
            \<and> target_name filename = Inr (code @ ''.srt'')
            \<and> (\<forall>w content.
                  files w filename = Some content \<and> files w (code @ ''.srt'') = None \<longrightarrow>
                  file_at (process_file filename w) (code @ ''.srt'') = Some content
                  \<and> file_at (process_file filename w) filename = None)"
proof -
  define k where "k = length (takeWhile (\<lambda>x. x \<noteq> CHR ''_'') filename)"
  define code where "code = [lower_char (filename ! (k + 1)), lower_char (filename ! (k + 2))]"
  have mem: "CHR ''_'' \<in> set filename"
    using assms by (simp add: matches_def str_count_pos)
  have 1: "k + 2 < length filename" using underscore_position[OF assms] by (simp add: k_def)
  have 2: "filename ! k = CHR ''_''" using first_occurrence(2)[OF mem] by (simp add: k_def)
  have 3: "target_name filename = Inr (code @ ''.srt'')"
    using target_name_value[OF assms] by (simp add: k_def code_def)
  have ne: "code @ ''.srt'' \<noteq> filename" using target_differs[OF assms 3] .
  have 4: "file_at (process_file filename w) (code @ ''.srt'') = Some content
           \<and> file_at (process_file filename w) filename = None"
    if "files w filename = Some content" "files w (code @ ''.srt'') = None" for w content
    using that assms 3 ne
    by (simp add: process_file_def isfile_def os_rename_def file_at_def)
  show ?thesis
    unfolding Let_def k_def[symmetric] code_def[symmetric]
    using 1 2 3 4 by blast
qed

theorem target_is_code_example:
  "matches ''movie_EN_full.srt''
   \<and> target_name ''movie_EN_full.srt'' = Inr ''en.srt''
   \<and> file_at (process_file ''movie_EN_full.srt''
                \<lparr>files = [''movie_EN_full.srt'' \<mapsto> ''subtitles''], stdout = []\<rparr>) ''en.srt''
       = Some ''subtitles''"
proof -
  have m: "matches ''movie_EN_full.srt''" by code_simp
  show ?thesis
    using m target_is_code_after_first_underscore[OF m]
    by (simp add: Let_def lower_char_E lower_char_N)
qed

text \<open>
  C4. Layout computation: for the fixed configuration (A4 page, 5 mm margins, 63 mm by 88 mm
  cards, 1 mm spacing) \<open>calculate_layout\<close> returns at most 3 columns and at most 3 rows, and
  the grid, \<open>cols * card_width + (cols - 1) * spacing_x\<close> wide and
  \<open>rows * card_height + (rows - 1) * spacing_y\<close> tall, does not exceed the area left after
  the margins. Proved for every page that is at least as large as its margins, A4 among
  them.
\<close>

theorem layout_fits:
  assumes "real_of_int (MARGIN_LEFT + MARGIN_RIGHT) \<le> fst pagesize / mm"
    and "real_of_int (MARGIN_TOP + MARGIN_BOTTOM) \<le> snd pagesize / mm"
  shows "case calculate_layout pagesize of (cols, rows, start_x, start_y) \<Rightarrow>
           cols \<le> 3 \<and> rows \<le> 3
           \<and> real_of_int (cols * CARD_WIDTH_MM + (cols - 1) * CARD_SPACING_X)
                \<le> fst pagesize / mm - of_int MARGIN_LEFT - of_int MARGIN_RIGHT
           \<and> real_of_int (rows * CARD_HEIGHT_MM + (rows - 1) * CARD_SPACING_Y)
                \<le> snd pagesize / mm - of_int MARGIN_TOP - of_int MARGIN_BOTTOM"
proof -
  define aw where "aw = fst pagesize / mm - 10"
  define ah where "ah = snd pagesize / mm - 10"
  have w: "real_of_int (min (py_int ((aw + 1) / of_int 64)) 3) * of_int 64 \<le> aw + 1"
    using assms(1) by (intro capped_count_fits) (simp_all add: aw_def config_defs)
  have h: "real_of_int (min (py_int ((ah + 1) / of_int 89)) 3) * of_int 89 \<le> ah + 1"
    using assms(2) by (intro capped_count_fits) (simp_all add: ah_def config_defs)
  show ?thesis
    using w h
    by (simp add: calculate_layout_def config_defs Let_def aw_def ah_def algebra_simps)
qed

theorem layout_fits_A4:
  "case calculate_layout A4 of (cols, rows, start_x, start_y) \<Rightarrow>
           cols \<le> 3 \<and> rows \<le> 3
           \<and> real_of_int (cols * CARD_WIDTH_MM + (cols - 1) * CARD_SPACING_X)
                \<le> fst A4 / mm - of_int MARGIN_LEFT - of_int MARGIN_RIGHT
           \<and> real_of_int (rows * CARD_HEIGHT_MM + (rows - 1) * CARD_SPACING_Y)
                \<le> snd A4 / mm - of_int MARGIN_TOP - of_int MARGIN_BOTTOM"
proof -
  have 1: "real_of_int (MARGIN_LEFT + MARGIN_RIGHT) \<le> fst A4 / mm"
    by (simp add: A4_def mm_def config_defs)
  have 2: "real_of_int (MARGIN_TOP + MARGIN_BOTTOM) \<le> snd A4 / mm"
    by (simp add: A4_def mm_def config_defs)
  show ?thesis using layout_fits[OF 1 2] .
qed

text \<open>
  C5, as the program behaves. Pagination count: for \<open>N\<close> images (at least one) and a
  capacity of \<open>C = cols * rows\<close> slots, when the temporary files and the output file can
  be written, \<open>generate_pdf\<close> without preview cuts the images into contiguous batches and
  writes a document of \<open>ceil(N / C)\<close> pages; the last batch has \<open>N mod C\<close> images, or \<open>C\<close>
  when \<open>C\<close> divides \<open>N\<close>. Page \<open>m\<close> shows the images of batch \<open>m\<close> that load and are
  drawn; when no image fails, page \<open>m\<close> shows the whole batch
  \<open>images[m * C : m * C + C]\<close>, the pages together show the images in order, and the last
  page shows \<open>N mod C\<close> images, or \<open>C\<close>. Ten such images on the 3 by 3 layout give two
  pages, of nine images and of one.
\<close>

theorem pagination_count:
  assumes "images \<noteq> []" and "calculate_layout pagesize = (cols, rows, sx, sy)"
    and "0 < cols * rows" and "\<forall>k<length images. save_ok en k" and "write_ok en out"
  shows "\<exists>doc. written (generate_pdf en cm pagesize images out False lg) = Some doc
           \<and> length doc = (length images + nat (cols * rows) - 1) div nat (cols * rows)
           \<and> length (take (nat (cols * rows))
                        (drop ((length doc - 1) * nat (cols * rows)) images))
               = (if length images mod nat (cols * rows) = 0 then nat (cols * rows)
                  else length images mod nat (cols * rows))
           \<and> map images_on doc
               = map (\<lambda>m. map (\<lambda>k. images ! k)
                             (filter (\<lambda>k. pil_ok en (images ! k) \<and> draw_ok en k)
                                [m * nat (cols * rows)
                                 ..<min (m * nat (cols * rows) + nat (cols * rows))
                                      (length images)]))
                   [0..<length doc]
           \<and> ((\<forall>k<length images. pil_ok en (images ! k) \<and> draw_ok en k) \<longrightarrow>
                map images_on doc
                  = map (\<lambda>m. take (nat (cols * rows)) (drop (m * nat (cols * rows)) images))
                      [0..<length doc]
                \<and> concat (map images_on doc) = images
                \<and> length (images_on (last doc))
                    = (if length images mod nat (cols * rows) = 0 then nat (cols * rows)
                       else length images mod nat (cols * rows)))"
proof -
  define C where "C = nat (cols * rows)"
  define n where "n = (length images + C - 1) div C"
  define doc where
    "doc = map (\<lambda>m. batch_code en cm (cols, rows, sx, sy) images C (m * C)) [0..<n]"
  have C: "0 < C" using assms(3) by (simp add: C_def)
  have N: "0 < length images" using assms(1) by simp
  from generate_pdf_result[OF assms, of cm lg]
  have w: "written (generate_pdf en cm pagesize images out False lg) = Some doc"
    by (auto simp: written_def doc_def n_def C_def)
  have len: "length doc = n" by (simp add: doc_def)
  have lb: "length (take C (drop ((length doc - 1) * C) images))
              = (if length images mod C = 0 then C else length images mod C)"
  proof -
    have "length (take C (drop ((n - 1) * C) images)) = min C (length images - (n - 1) * C)"
      by (simp add: min.commute)
    then show ?thesis using last_batch_length[OF C N] by (simp only: len n_def)
  qed
  have "map (\<lambda>m. images_on (batch_code en cm (cols, rows, sx, sy) images C (m * C))) [0..<n]
          = map (\<lambda>m. map (\<lambda>k. images ! k)
                        (filter (\<lambda>k. pil_ok en (images ! k) \<and> draw_ok en k)
                           [m * C..<min (m * C + C) (length images)])) [0..<n]"
  proof (rule map_cong[OF refl])
    fix m assume "m \<in> set [0..<n]"
    then have "m < (length images + C - 1) div C" by (simp add: n_def)
    from batch_start_in_range[OF C this]
    have "max (m * C) (length images) = length images" by simp
    then show "images_on (batch_code en cm (cols, rows, sx, sy) images C (m * C))
                 = map (\<lambda>k. images ! k)
                     (filter (\<lambda>k. pil_ok en (images ! k) \<and> draw_ok en k)
                        [m * C..<min (m * C + C) (length images)])"
      by (simp only: images_of_batch_code)
  qed
  then have shown: "map images_on doc
          = map (\<lambda>m. map (\<lambda>k. images ! k)
                        (filter (\<lambda>k. pil_ok en (images ! k) \<and> draw_ok en k)
                           [m * C..<min (m * C + C) (length images)])) [0..<length doc]"
    unfolding len by (simp add: doc_def comp_def)
  have whole: "map images_on doc = map (\<lambda>m. take C (drop (m * C) images)) [0..<length doc]
                \<and> concat (map images_on doc) = images
                \<and> length (images_on (last doc))
                    = (if length images mod C = 0 then C else length images mod C)"
    if ok: "\<forall>k<length images. pil_ok en (images ! k) \<and> draw_ok en k"
  proof -
    have pg: "map images_on doc = map (\<lambda>m. take C (drop (m * C) images)) [0..<n]"
      by (simp add: doc_def images_batch_code[OF ok] comp_def)
    have "concat (map (\<lambda>m. take C (drop (0 + m * C) images))
                    [0..<(length images - 0 + C - 1) div C]) = drop 0 images"
      by (rule concat_chunks[OF C])
    then have cc: "concat (map images_on doc) = images"
      unfolding pg n_def by simp
    have npos: "0 < n" using ceil_Suc[OF C N] by (simp add: n_def)
    then have "last doc = batch_code en cm (cols, rows, sx, sy) images C ((n - 1) * C)"
      by (simp add: doc_def last_map last_upt)
    then have "length (images_on (last doc)) = min C (length images - (n - 1) * C)"
      by (simp add: images_batch_code[OF ok] min.commute)
    then have lp: "length (images_on (last doc))
               = (if length images mod C = 0 then C else length images mod C)"
      using last_batch_length[OF C N] by (simp only: n_def)
    show ?thesis using pg cc lp by (simp only: len)
  qed
  show ?thesis
    unfolding C_def[symmetric]
  proof (intro exI conjI impI)
    show "written (generate_pdf en cm pagesize images out False lg) = Some doc" by (rule w)
    show "length doc = (length images + C - 1) div C" using len by (simp only: n_def)
    show "length (take C (drop ((length doc - 1) * C) images))
              = (if length images mod C = 0 then C else length images mod C)" by (rule lb)
    show "map images_on doc
          = map (\<lambda>m. map (\<lambda>k. images ! k)
                        (filter (\<lambda>k. pil_ok en (images ! k) \<and> draw_ok en k)
                           [m * C..<min (m * C + C) (length images)])) [0..<length doc]"
      by (rule shown)
  next
    assume ok: "\<forall>k<length images. pil_ok en (images ! k) \<and> draw_ok en k"
    show "map images_on doc = map (\<lambda>m. take C (drop (m * C) images)) [0..<length doc]"
      using whole[OF ok] by (elim conjE)
    show "concat (map images_on doc) = images"
      using whole[OF ok] by (elim conjE)
    show "length (images_on (last doc))
                    = (if length images mod C = 0 then C else length images mod C)"
      using whole[OF ok] by (elim conjE)
  qed
qed

theorem pagination_count_example:
  "\<exists>doc. written (generate_pdf ten_cards False A4 [0..<10] ''mtg_cards.pdf'' False []) = Some doc
         \<and> length doc = 2
         \<and> map images_on doc = [[0, 1, 2, 3, 4, 5, 6, 7, 8], [9]]
         \<and> length (images_on (last doc)) = 1"
proof -
  have h1: "[0..<10::nat] \<noteq> []" by simp
  have h3: "(0::int) < 3 * 3" by simp
  have h4: "\<forall>k<length [0..<10::nat]. save_ok ten_cards k"
    by (simp add: ten_cards_def)
  have h5: "write_ok ten_cards ''mtg_cards.pdf''"
    by (simp add: ten_cards_def)
  have ok: "\<forall>k<length [0..<10::nat]. pil_ok ten_cards ([0..<10] ! k) \<and> draw_ok ten_cards k"
    by (simp add: ten_cards_def)
  from pagination_count[OF h1 layout_A4 h3 h4 h5, of False "[]"]
  obtain doc where d: "written (generate_pdf ten_cards False A4 [0..<10]
                         ''mtg_cards.pdf'' False []) = Some doc"
    and l: "length doc = (length [0..<10::nat] + nat (3 * 3) - 1) div nat (3 * 3)"
    and i: "(\<forall>k<length [0..<10::nat]. pil_ok ten_cards ([0..<10] ! k) \<and> draw_ok ten_cards k)
            \<longrightarrow>
                map images_on doc
                  = map (\<lambda>m. take (nat (3 * 3)) (drop (m * nat (3 * 3)) [0..<10::nat]))
                      [0..<length doc]
                \<and> concat (map images_on doc) = [0..<10::nat]
                \<and> length (images_on (last doc))
                    = (if length [0..<10::nat] mod nat (3 * 3) = 0 then nat (3 * 3)
                       else length [0..<10::nat] mod nat (3 * 3))"
    by (elim exE conjE) (rule that, assumption+)
  note whole = mp[OF i ok]
  have p: "map images_on doc
                  = map (\<lambda>m. take (nat (3 * 3)) (drop (m * nat (3 * 3)) [0..<10::nat]))
                      [0..<length doc]"
    by (rule whole[THEN conjunct1])
  have lp: "length (images_on (last doc))
                    = (if length [0..<10::nat] mod nat (3 * 3) = 0 then nat (3 * 3)
                       else length [0..<10::nat] mod nat (3 * 3))"
    by (rule whole[THEN conjunct2, THEN conjunct2])
  have l2: "length doc = 2" using l by simp
  have e: "map (\<lambda>m. take (nat (3 * 3)) (drop (m * nat (3 * 3)) [0..<10::nat])) [0..<2]
             = [[0, 1, 2, 3, 4, 5, 6, 7, 8], [9]]"
    by code_simp
  have m: "map images_on doc = [[0, 1, 2, 3, 4, 5, 6, 7, 8], [9]]"
    using p e by (simp only: l2)
  have one: "length (images_on (last doc)) = 1" using lp by simp
  show ?thesis
  proof (intro exI conjI)
    show "written (generate_pdf ten_cards False A4 [0..<10] ''mtg_cards.pdf'' False [])
            = Some doc" by (rule d)
    show "length doc = 2" by (rule l2)
    show "map images_on doc = [[0, 1, 2, 3, 4, 5, 6, 7, 8], [9]]" by (rule m)
    show "length (images_on (last doc)) = 1" by (rule one)
  qed
qed

text \<open>
  The example of the specification, run through \<open>main\<close>: ten images on A4 give a document
  of two pages, with nine images and one image; there is no third or fourth page.
\<close>

theorem ten_images_make_two_pages:
  "map_option (map (\<lambda>page. length (images_on page)))
     (document (main ten_cards ENABLE_CUT_MARKS A4 default_args)) = Some [9, 1]"
  by code_simp

text \<open>
  C6. Slot placement: within a page, the card with index \<open>j\<close> of the batch is drawn at
  column \<open>j mod cols\<close> and row \<open>j div cols\<close>, at \<open>x = start_x + col * (card_width +
  spacing_x)\<close> and \<open>y = start_y + (rows - 1 - row) * (card_height + spacing_y)\<close> (both
  converted to points for \<open>drawImage\<close>); the cards of the batch that load and draw take
  their slots in sequence order, each with its own image. With a positive column count a
  later index is never drawn higher on the page, so row 0 is the topmost one.
\<close>

theorem slot_placement:
  assumes "\<forall>j<length batch. save_ok en (i + j)"
  shows "\<exists>st'. process_batch en cm (cols, rows, start_x, start_y) i 0 batch st = Inr st'
           \<and> placements (code st')
               = placements (code st)
                 @ map (\<lambda>j. (i + j, batch ! j,
                           (start_x + of_int ((int j mod cols)
                                               * (CARD_WIDTH_MM + CARD_SPACING_X))) * mm,
                           (start_y + of_int ((rows - 1 - int j div cols)
                                               * (CARD_HEIGHT_MM + CARD_SPACING_Y))) * mm))
                     (filter (\<lambda>j. pil_ok en (batch ! j) \<and> draw_ok en (i + j))
                        [0..<length batch])
           \<and> (0 < cols \<longrightarrow>
                (\<forall>j j'. j \<le> j' \<longrightarrow>
                   start_y + of_int ((rows - 1 - int j' div cols)
                                       * (CARD_HEIGHT_MM + CARD_SPACING_Y))
                   \<le> start_y + of_int ((rows - 1 - int j div cols)
                                         * (CARD_HEIGHT_MM + CARD_SPACING_Y))))"
proof -
  have sv: "\<forall>j'. 0 \<le> j' \<and> j' < 0 + length batch \<longrightarrow> save_ok en (i + j')"
    using assms by simp
  from process_batch_result[OF sv, of cm "(cols, rows, start_x, start_y)" st]
  obtain st' where r: "process_batch en cm (cols, rows, start_x, start_y) i 0 batch st = Inr st'"
    and c: "code st' = code st
              @ concat (map (card_code en cm (cols, rows, start_x, start_y) i)
                          (enumerate 0 batch))"
    by (elim exE conjE) (rule that, assumption+)
  have p: "placements (code st')
               = placements (code st)
                 @ map (\<lambda>j. (i + j, batch ! j,
                           (start_x + of_int ((int j mod cols)
                                               * (CARD_WIDTH_MM + CARD_SPACING_X))) * mm,
                           (start_y + of_int ((rows - 1 - int j div cols)
                                               * (CARD_HEIGHT_MM + CARD_SPACING_Y))) * mm))
                     (filter (\<lambda>j. pil_ok en (batch ! j) \<and> draw_ok en (i + j))
                        [0..<length batch])"
    by (simp only: c placements_append placements_cards slot_position_value fst_conv snd_conv)
  show ?thesis
    using r p later_slot_not_higher[of cols _ _ start_y rows] by blast
qed

theorem slot_placement_example:
  "\<exists>st'. process_batch ten_cards False (3, 3, 19 / 2, 31 / 2) 0 0 [0, 1, 2, 3] empty_page
            = Inr st'
         \<and> placements (code st')
             = [(0, 0, 19 / 2 * mm, 387 / 2 * mm), (1, 1, 147 / 2 * mm, 387 / 2 * mm),
                (2, 2, 275 / 2 * mm, 387 / 2 * mm), (3, 3, 19 / 2 * mm, 209 / 2 * mm)]"
proof -
  have h: "\<forall>j<length [0, 1, 2, 3::nat]. save_ok ten_cards (0 + j)"
    by (simp add: ten_cards_def)
  from slot_placement[OF h, of False 3 3 "19 / 2" "31 / 2" empty_page]
  obtain st' where r: "process_batch ten_cards False (3, 3, 19 / 2, 31 / 2) 0 0 [0, 1, 2, 3]
                         empty_page = Inr st'"
    and p: "placements (code st')
               = placements (code empty_page)
                 @ map (\<lambda>j. (0 + j, [0, 1, 2, 3::nat] ! j,
                           (19 / 2 + of_int ((int j mod 3)
                                               * (CARD_WIDTH_MM + CARD_SPACING_X))) * mm,
                           (31 / 2 + of_int ((3 - 1 - int j div 3)
                                               * (CARD_HEIGHT_MM + CARD_SPACING_Y))) * mm))
                     (filter (\<lambda>j. pil_ok ten_cards ([0, 1, 2, 3] ! j) \<and> draw_ok ten_cards (0 + j))
                        [0..<length [0, 1, 2, 3::nat]])"
    by (elim exE conjE) (rule that, assumption+)
  have e: "placements (code empty_page)
                 @ map (\<lambda>j. (0 + j, [0, 1, 2, 3::nat] ! j,
                           (19 / 2 + of_int ((int j mod 3)
                                               * (CARD_WIDTH_MM + CARD_SPACING_X))) * mm,
                           (31 / 2 + of_int ((3 - 1 - int j div 3)
                                               * (CARD_HEIGHT_MM + CARD_SPACING_Y))) * mm))
                     (filter (\<lambda>j. pil_ok ten_cards ([0, 1, 2, 3] ! j) \<and> draw_ok ten_cards (0 + j))
                        [0..<length [0, 1, 2, 3::nat]])
             = [(0, 0, 19 / 2 * mm, 387 / 2 * mm), (1, 1, 147 / 2 * mm, 387 / 2 * mm),
                (2, 2, 275 / 2 * mm, 387 / 2 * mm), (3, 3, 19 / 2 * mm, 209 / 2 * mm)]"
    by code_simp
  show ?thesis
  proof (intro exI conjI)
    show "process_batch ten_cards False (3, 3, 19 / 2, 31 / 2) 0 0 [0, 1, 2, 3] empty_page
            = Inr st'" by (rule r)
    show "placements (code st')
             = [(0, 0, 19 / 2 * mm, 387 / 2 * mm), (1, 1, 147 / 2 * mm, 387 / 2 * mm),
                (2, 2, 275 / 2 * mm, 387 / 2 * mm), (3, 3, 19 / 2 * mm, 209 / 2 * mm)]"
      using p e by (simp only:)
  qed
qed

text \<open>
  C7. Grid centering symmetry: for the layout \<open>calculate_layout\<close> returns, the offset of the
  grid from the left margin equals the space left over on the right, and the offset from the
  bottom margin equals the space left over at the top (exactly, in real arithmetic).
\<close>

theorem centering_symmetric:
  "case calculate_layout pagesize of (cols, rows, start_x, start_y) \<Rightarrow>
     start_x - of_int MARGIN_LEFT
       = (fst pagesize / mm - of_int MARGIN_LEFT - of_int MARGIN_RIGHT)
         - of_int (cols * CARD_WIDTH_MM + (cols - 1) * CARD_SPACING_X)
         - (start_x - of_int MARGIN_LEFT)
     \<and> start_y - of_int MARGIN_BOTTOM
       = (snd pagesize / mm - of_int MARGIN_TOP - of_int MARGIN_BOTTOM)
         - of_int (rows * CARD_HEIGHT_MM + (rows - 1) * CARD_SPACING_Y)
         - (start_y - of_int MARGIN_BOTTOM)"
  unfolding calculate_layout_def Let_def prod.case
  by (intro conjI centred_offset)

text \<open>
  C8. Directory-level errors: when the source directory does not exist \<open>find_image_files\<close>
  raises \<open>FileNotFoundError\<close>, when the path exists but is not a directory it raises
  \<open>NotADirectoryError\<close>; in both cases \<open>main\<close> logs the fatal error, exits with code 1 and
  no document is written.
\<close>

theorem directory_errors:
  assumes "\<not> (path_exists en (source_dir ar) \<and> path_is_dir en (source_dir ar))"
  shows "find_image_files en (source_dir ar) lg
           = Inl (Raised (if path_exists en (source_dir ar)
                          then NotADirectoryError (source_dir ar)
                          else FileNotFoundError (source_dir ar)) lg)
         \<and> exit_code (main en enable pagesize ar) = 1
         \<and> document (main en enable pagesize ar) = None
         \<and> run_log (main en enable pagesize ar)
             = [LogStart,
                LogFatal (if path_exists en (source_dir ar)
                          then NotADirectoryError (source_dir ar)
                          else FileNotFoundError (source_dir ar))]"
  using assms by (auto simp: find_image_files_def main_def Let_def)

theorem directory_errors_example:
  "find_image_files missing_directory ''./images'' [LogStart]
     = Inl (Raised (FileNotFoundError ''./images'') [LogStart])
   \<and> exit_code (main missing_directory ENABLE_CUT_MARKS A4 default_args) = 1
   \<and> document (main missing_directory ENABLE_CUT_MARKS A4 default_args) = None
   \<and> find_image_files plain_file ''./images'' [LogStart]
     = Inl (Raised (NotADirectoryError ''./images'') [LogStart])
   \<and> exit_code (main plain_file ENABLE_CUT_MARKS A4 default_args) = 1
   \<and> document (main plain_file ENABLE_CUT_MARKS A4 default_args) = None"
proof -
  have s: "source_dir default_args = ''./images''" by (simp add: default_args_def)
  have m: "\<not> (path_exists missing_directory (source_dir default_args)
              \<and> path_is_dir missing_directory (source_dir default_args))"
    by (simp add: missing_directory_def)
  have me: "\<not> path_exists missing_directory ''./images''" by (simp add: missing_directory_def)
  have f: "\<not> (path_exists plain_file (source_dir default_args)
              \<and> path_is_dir plain_file (source_dir default_args))"
    by (simp add: plain_file_def)
  have fe: "path_exists plain_file ''./images''" by (simp add: plain_file_def ten_cards_def)
  show ?thesis
    using directory_errors[OF m, of "[LogStart]" ENABLE_CUT_MARKS A4]
          directory_errors[OF f, of "[LogStart]" ENABLE_CUT_MARKS A4] me fe
    by (simp add: s)
qed

text \<open>
  C9. Per-image error handling: when the temporary files and the output file can be
  written, \<open>generate_pdf\<close> returns normally and writes the document whatever images fail
  to load. Each page holds
  exactly the cards of its batch that load and draw, in order; an image that fails to load
  is logged at level ERROR and no card is placed for it.
\<close>

theorem failed_image_is_skipped:
  assumes "images \<noteq> []" and "calculate_layout pagesize = (cols, rows, sx, sy)"
    and "0 < cols * rows" and "\<forall>k<length images. save_ok en k" and "write_ok en out"
  shows "\<exists>doc lg'. generate_pdf en cm pagesize images out False lg = Inr (Some doc, lg')
           \<and> map indices_on doc
               = map (\<lambda>m. filter (\<lambda>k. pil_ok en (images ! k) \<and> draw_ok en k)
                             [m * nat (cols * rows)
                              ..<min (m * nat (cols * rows) + nat (cols * rows)) (length images)])
                   [0..<(length images + nat (cols * rows) - 1) div nat (cols * rows)]
           \<and> (\<forall>k<length images. \<not> pil_ok en (images ! k) \<longrightarrow>
                 LogImageError (images ! k) \<in> set lg'
                 \<and> level (LogImageError (images ! k)) = ERROR
                 \<and> k \<notin> set (concat (map indices_on doc)))"
proof -
  define C where "C = nat (cols * rows)"
  define n where "n = (length images + C - 1) div C"
  define doc where
    "doc = map (\<lambda>m. batch_code en cm (cols, rows, sx, sy) images C (m * C)) [0..<n]"
  define pagelog where
    "pagelog = concat (map (\<lambda>m. LogPage (Suc m) # batch_log en images C (m * C)) [0..<n])"
  have C: "0 < C" using assms(3) by (simp add: C_def)
  from generate_pdf_result[OF assms, of cm lg]
  obtain np where g0: "generate_pdf en cm pagesize images out False lg
           = Inr (Some (map (\<lambda>k. batch_code en cm (cols, rows, sx, sy) images
                                   (nat (cols * rows)) (k * nat (cols * rows)))
                          [0..<(length images + nat (cols * rows) - 1) div nat (cols * rows)]),
                  lg @ LogLayout cols rows
                     # concat (map (\<lambda>k. LogPage (Suc k)
                                          # batch_log en images (nat (cols * rows))
                                              (k * nat (cols * rows)))
                          [0..<(length images + nat (cols * rows) - 1) div nat (cols * rows)])
                     @ [LogGenerated out, LogStats np (length images)])"
    by (elim exE) (rule that)
  have g: "generate_pdf en cm pagesize images out False lg
           = Inr (Some doc, lg @ LogLayout cols rows # pagelog
                              @ [LogGenerated out, LogStats np (length images)])"
    using g0 by (simp only: doc_def pagelog_def n_def C_def)
  define lg' where
    "lg' = lg @ LogLayout cols rows # pagelog @ [LogGenerated out, LogStats np (length images)]"
  have len: "length doc = n" by (simp add: doc_def)
  have "map (\<lambda>m. indices_on (batch_code en cm (cols, rows, sx, sy) images C (m * C))) [0..<n]
          = map (\<lambda>m. filter (\<lambda>k. pil_ok en (images ! k) \<and> draw_ok en k)
                             [m * C..<min (m * C + C) (length images)]) [0..<n]"
  proof (rule map_cong[OF refl])
    fix m assume "m \<in> set [0..<n]"
    then have "m < (length images + C - 1) div C" by (simp add: n_def)
    from batch_start_in_range[OF C this]
    have "max (m * C) (length images) = length images" by simp
    then show "indices_on (batch_code en cm (cols, rows, sx, sy) images C (m * C))
                 = filter (\<lambda>k. pil_ok en (images ! k) \<and> draw_ok en k)
                             [m * C..<min (m * C + C) (length images)]"
      by (simp only: indices_batch_code)
  qed
  then have pg: "map indices_on doc
          = map (\<lambda>m. filter (\<lambda>k. pil_ok en (images ! k) \<and> draw_ok en k)
                             [m * C..<min (m * C + C) (length images)]) [0..<n]"
    by (simp add: doc_def comp_def)
  have "map indices_on doc
          = map (\<lambda>m. indices_on (batch_code en cm (cols, rows, sx, sy) images C (m * C))) [0..<n]"
    by (simp add: doc_def)
  then have all: "set (concat (map indices_on doc))
               = {k. k < length images \<and> pil_ok en (images ! k) \<and> draw_ok en k}"
    using indices_document[OF C, of en cm "(cols, rows, sx, sy)" images] by (simp only: n_def)
  have fail: "LogImageError (images ! k) \<in> set lg'
                 \<and> level (LogImageError (images ! k)) = ERROR
                 \<and> k \<notin> set (concat (map indices_on doc))"
    if kN: "k < length images" and bad: "\<not> pil_ok en (images ! k)" for k
  proof -
    define m where "m = k div C"
    have m: "m < n" using batch_of_index[OF C kN] by (simp add: m_def n_def)
    have lo: "m * C \<le> k" by (simp add: m_def)
    have hi: "k < m * C + C"
      using C dividend_less_div_times[of C k] by (simp add: m_def add.commute)
    have "LogImageError (images ! k) \<in> set (batch_log en images C (m * C))"
      by (rule log_batch[OF lo hi kN bad])
    then have "LogImageError (images ! k) \<in> set pagelog"
      using m unfolding pagelog_def set_concat
      by (intro UN_I[of "LogPage (Suc m) # batch_log en images C (m * C)"]) auto
    then have 1: "LogImageError (images ! k) \<in> set lg'" by (simp add: lg'_def)
    have 3: "k \<notin> set (concat (map indices_on doc))" using bad by (simp only: all) simp
    show ?thesis using 1 3 by simp
  qed
  show ?thesis
  proof (intro exI conjI)
    show "generate_pdf en cm pagesize images out False lg = Inr (Some doc, lg')"
      using g by (simp only: lg'_def)
    show "map indices_on doc
               = map (\<lambda>m. filter (\<lambda>k. pil_ok en (images ! k) \<and> draw_ok en k)
                             [m * nat (cols * rows)
                              ..<min (m * nat (cols * rows) + nat (cols * rows)) (length images)])
                   [0..<(length images + nat (cols * rows) - 1) div nat (cols * rows)]"
      using pg by (simp only: C_def n_def)
    show "\<forall>k<length images. \<not> pil_ok en (images ! k) \<longrightarrow>
                 LogImageError (images ! k) \<in> set lg'
                 \<and> level (LogImageError (images ! k)) = ERROR
                 \<and> k \<notin> set (concat (map indices_on doc))"
      using fail by blast
  qed
qed

theorem failed_image_is_skipped_example:
  "\<exists>doc lg'. generate_pdf ten_cards_damaged False A4 [0..<10] ''mtg_cards.pdf'' False []
                 = Inr (Some doc, lg')
             \<and> map indices_on doc = [[0, 1, 2, 4, 5, 6, 7, 8], []]
             \<and> LogImageError 3 \<in> set lg'
             \<and> 3 \<notin> set (concat (map indices_on doc))"
proof -
  have h1: "[0..<10::nat] \<noteq> []" by simp
  have h3: "(0::int) < 3 * 3" by simp
  have h4: "\<forall>k<length [0..<10::nat]. save_ok ten_cards_damaged k"
    by (simp add: ten_cards_damaged_def ten_cards_def)
  have h5: "write_ok ten_cards_damaged ''mtg_cards.pdf''"
    by (simp add: ten_cards_damaged_def ten_cards_def)
  from failed_image_is_skipped[OF h1 layout_A4 h3 h4 h5, of False "[]"]
  obtain doc lg' where g: "generate_pdf ten_cards_damaged False A4 [0..<10] ''mtg_cards.pdf''
                             False [] = Inr (Some doc, lg')"
    and p: "map indices_on doc
               = map (\<lambda>m. filter (\<lambda>k. pil_ok ten_cards_damaged ([0..<10] ! k)
                                       \<and> draw_ok ten_cards_damaged k)
                             [m * nat (3 * 3)..<min (m * nat (3 * 3) + nat (3 * 3))
                                                  (length [0..<10::nat])])
                   [0..<(length [0..<10::nat] + nat (3 * 3) - 1) div nat (3 * 3)]"
    and f: "\<forall>k<length [0..<10::nat]. \<not> pil_ok ten_cards_damaged ([0..<10] ! k) \<longrightarrow>
                 LogImageError ([0..<10] ! k) \<in> set lg'
                 \<and> level (LogImageError ([0..<10::nat] ! k)) = ERROR
                 \<and> k \<notin> set (concat (map indices_on doc))"
    by (elim exE conjE) (rule that, assumption+)
  have e: "map (\<lambda>m. filter (\<lambda>k. pil_ok ten_cards_damaged ([0..<10] ! k)
                                       \<and> draw_ok ten_cards_damaged k)
                             [m * nat (3 * 3)..<min (m * nat (3 * 3) + nat (3 * 3))
                                                  (length [0..<10::nat])])
                   [0..<(length [0..<10::nat] + nat (3 * 3) - 1) div nat (3 * 3)]
             = [[0, 1, 2, 4, 5, 6, 7, 8], []]"
    by code_simp
  have 3: "(3::nat) < length [0..<10::nat]" by simp
  have n3: "[0..<10::nat] ! 3 = 3" by simp
  have bad: "\<not> pil_ok ten_cards_damaged ([0..<10] ! 3)"
    by (simp only: n3) (simp add: ten_cards_damaged_def)
  from f 3 bad have "LogImageError ([0..<10::nat] ! 3) \<in> set lg'
                 \<and> 3 \<notin> set (concat (map indices_on doc))" by blast
  then have l: "LogImageError 3 \<in> set lg'" and s: "3 \<notin> set (concat (map indices_on doc))"
    by simp_all
  show ?thesis
  proof (intro exI conjI)
    show "generate_pdf ten_cards_damaged False A4 [0..<10] ''mtg_cards.pdf'' False []
                 = Inr (Some doc, lg')" by (rule g)
    show "map indices_on doc = [[0, 1, 2, 4, 5, 6, 7, 8], []]" using p e by (simp only:)
    show "LogImageError 3 \<in> set lg'" by (rule l)
    show "3 \<notin> set (concat (map indices_on doc))" by (rule s)
  qed
qed

text \<open>
  C10. Without preview, one page is finished per batch whatever happens to the images:
  when the temporary files and the output file can be written, the document has \<open>ceil(N / C)\<close> pages, a batch whose images all fail to load gives a page
  with nothing on it, and the cards placed are exactly the images that load and draw.
\<close>

theorem page_count_despite_failures:
  assumes "images \<noteq> []" and "calculate_layout pagesize = (cols, rows, sx, sy)"
    and "0 < cols * rows" and "\<forall>k<length images. save_ok en k" and "write_ok en out"
  shows "\<exists>doc. written (generate_pdf en cm pagesize images out False lg) = Some doc
           \<and> length doc = (length images + nat (cols * rows) - 1) div nat (cols * rows)
           \<and> (\<forall>m<length doc.
                 (\<forall>k. m * nat (cols * rows) \<le> k \<and> k < m * nat (cols * rows) + nat (cols * rows)
                        \<and> k < length images \<longrightarrow> \<not> pil_ok en (images ! k))
                 \<longrightarrow> doc ! m = [])
           \<and> set (concat (map indices_on doc))
               = {k. k < length images \<and> pil_ok en (images ! k) \<and> draw_ok en k}"
proof -
  define C where "C = nat (cols * rows)"
  define n where "n = (length images + C - 1) div C"
  define doc where
    "doc = map (\<lambda>m. batch_code en cm (cols, rows, sx, sy) images C (m * C)) [0..<n]"
  have C: "0 < C" using assms(3) by (simp add: C_def)
  from generate_pdf_result[OF assms, of cm lg]
  have w: "written (generate_pdf en cm pagesize images out False lg) = Some doc"
    by (auto simp: written_def doc_def n_def C_def)
  have len: "length doc = n" by (simp add: doc_def)
  have empty: "doc ! m = []"
    if "m < length doc"
      and "\<forall>k. m * C \<le> k \<and> k < m * C + C \<and> k < length images \<longrightarrow> \<not> pil_ok en (images ! k)"
    for m
  proof -
    have "\<forall>j<min C (length images - m * C). \<not> pil_ok en (images ! (m * C + j))"
    proof (intro allI impI)
      fix j assume j: "j < min C (length images - m * C)"
      then have "j < C" and "j < length images - m * C" by simp_all
      then have "m * C \<le> m * C + j \<and> m * C + j < m * C + C \<and> m * C + j < length images"
        by linarith
      then show "\<not> pil_ok en (images ! (m * C + j))" using that(2) by blast
    qed
    from batch_code_empty[OF this] show ?thesis using that(1) by (simp add: doc_def)
  qed
  have "map indices_on doc
          = map (\<lambda>m. indices_on (batch_code en cm (cols, rows, sx, sy) images C (m * C))) [0..<n]"
    by (simp add: doc_def)
  then have all: "set (concat (map indices_on doc))
               = {k. k < length images \<and> pil_ok en (images ! k) \<and> draw_ok en k}"
    using indices_document[OF C, of en cm "(cols, rows, sx, sy)" images] by (simp only: n_def)
  show ?thesis
    unfolding C_def[symmetric] n_def[symmetric]
    using w len empty all by blast
qed

theorem page_count_despite_failures_example:
  "\<exists>doc. written (generate_pdf ten_cards_damaged False A4 [0..<10] ''mtg_cards.pdf'' False [])
            = Some doc
         \<and> length doc = 2 \<and> doc ! 1 = []"
proof -
  have h1: "[0..<10::nat] \<noteq> []" by simp
  have h3: "(0::int) < 3 * 3" by simp
  have h4: "\<forall>k<length [0..<10::nat]. save_ok ten_cards_damaged k"
    by (simp add: ten_cards_damaged_def ten_cards_def)
  have h5: "write_ok ten_cards_damaged ''mtg_cards.pdf''"
    by (simp add: ten_cards_damaged_def ten_cards_def)
  from page_count_despite_failures[OF h1 layout_A4 h3 h4 h5, of False "[]"]
  obtain doc where d: "written (generate_pdf ten_cards_damaged False A4 [0..<10]
                         ''mtg_cards.pdf'' False []) = Some doc"
    and l: "length doc = (length [0..<10::nat] + nat (3 * 3) - 1) div nat (3 * 3)"
    and e: "\<forall>m<length doc.
                 (\<forall>k. m * nat (3 * 3) \<le> k \<and> k < m * nat (3 * 3) + nat (3 * 3)
                        \<and> k < length [0..<10::nat]
                        \<longrightarrow> \<not> pil_ok ten_cards_damaged ([0..<10] ! k))
                 \<longrightarrow> doc ! m = []"
    by blast
  have l2: "length doc = 2" using l by simp
  have "\<not> pil_ok ten_cards_damaged ([0..<10] ! k)"
    if "1 * nat (3 * 3) \<le> k \<and> k < 1 * nat (3 * 3) + nat (3 * 3) \<and> k < length [0..<10::nat]"
    for k
  proof -
    from that have "k = 9" by simp
    then show ?thesis by (simp add: ten_cards_damaged_def)
  qed
  then have "doc ! 1 = []" using e l2 by (metis one_less_numeral_iff semiring_norm(76))
  then show ?thesis using d l2 by blast
qed

end
